theory Spec2Isabelle
  imports Main
begin

section \<open>Text: Python strings at code points below 256\<close>

text \<open>
  A Python \<open>str\<close> is a sequence of code points. The model is \<open>string\<close>, whose characters
  are the code points 0 to 255; the character classes below are the ones Python 3
  uses there (\<open>str.isspace\<close>, \<open>\<^verbatim>\<open>\d\<close>\<close>, \<open>\<^verbatim>\<open>\w\<close>\<close>, \<open>str.lower\<close>, \<open>str.splitlines\<close>).
\<close>

definition LF :: char where "LF = CHR 0x0A"
definition CR :: char where "CR = CHR 0x0D"

definition code :: "char \<Rightarrow> nat" where
  "code c = of_char c"

definition is_space :: "char \<Rightarrow> bool" where
  \<comment> \<open>\<open>str.isspace\<close> and \<open>\<^verbatim>\<open>\s\<close>\<close>: TAB LF VT FF CR, FS GS RS US, SPACE, NEL, NBSP\<close>
  "is_space c = (let n = code c in
     (9 \<le> n \<and> n \<le> 13) \<or> (28 \<le> n \<and> n \<le> 32) \<or> n = 133 \<or> n = 160)"

definition is_digit :: "char \<Rightarrow> bool" where
  \<comment> \<open>\<open>\<^verbatim>\<open>\d\<close>\<close>: decimal digits; \<open>\<^verbatim>\<open>\D\<close>\<close> is the complement\<close>
  "is_digit c = (let n = code c in 48 \<le> n \<and> n \<le> 57)"

definition is_AZ :: "char \<Rightarrow> bool" where
  "is_AZ c = (let n = code c in 65 \<le> n \<and> n \<le> 90)"

definition is_az :: "char \<Rightarrow> bool" where
  "is_az c = (let n = code c in 97 \<le> n \<and> n \<le> 122)"

definition is_09 :: "char \<Rightarrow> bool" where
  "is_09 c = (let n = code c in 48 \<le> n \<and> n \<le> 57)"

definition is_word :: "char \<Rightarrow> bool" where
  \<comment> \<open>\<open>\<^verbatim>\<open>\w\<close>\<close>: \<open>str.isalnum\<close> or underscore\<close>
  "is_word c = (let n = code c in
     (48 \<le> n \<and> n \<le> 57) \<or> (65 \<le> n \<and> n \<le> 90) \<or> n = 95 \<or> (97 \<le> n \<and> n \<le> 122) \<or>
     n = 170 \<or> n = 178 \<or> n = 179 \<or> n = 181 \<or> n = 185 \<or> n = 186 \<or>
     (188 \<le> n \<and> n \<le> 190) \<or> (192 \<le> n \<and> n \<le> 214) \<or> (216 \<le> n \<and> n \<le> 246) \<or>
     (248 \<le> n \<and> n \<le> 255))"

definition is_linebreak :: "char \<Rightarrow> bool" where
  \<comment> \<open>the line boundaries of \<open>str.splitlines\<close>: LF VT FF CR, FS GS RS, NEL\<close>
  "is_linebreak c = (let n = code c in (10 \<le> n \<and> n \<le> 13) \<or> (28 \<le> n \<and> n \<le> 30) \<or> n = 133)"

definition lower_char :: "char \<Rightarrow> char" where
  "lower_char c = (let n = code c in
     if (65 \<le> n \<and> n \<le> 90) \<or> (192 \<le> n \<and> n \<le> 214) \<or> (216 \<le> n \<and> n \<le> 222)
     then char_of (n + 32) else c)"

definition lower :: "string \<Rightarrow> string" where
  \<comment> \<open>\<open>s.lower()\<close>\<close>
  "lower s = map lower_char s"

definition strip :: "string \<Rightarrow> string" where
  \<comment> \<open>\<open>s.strip()\<close>\<close>
  "strip s = rev (dropWhile is_space (rev (dropWhile is_space s)))"

fun contains :: "string \<Rightarrow> string \<Rightarrow> bool" where
  \<comment> \<open>\<open>needle in hay\<close>\<close>
  "contains needle [] = (needle = [])"
| "contains needle (c # cs) = (take (length needle) (c # cs) = needle \<or> contains needle cs)"

fun splitlines_from :: "bool \<Rightarrow> string \<Rightarrow> string \<Rightarrow> string list" where
  \<comment> \<open>\<open>after_cr\<close>: the previous character was CR, so that CR LF is one boundary;
      \<open>cur\<close>: the current line, reversed\<close>
  "splitlines_from after_cr cur [] = (if cur = [] then [] else [rev cur])"
| "splitlines_from after_cr cur (c # cs) =
     (if after_cr \<and> c = LF then splitlines_from False cur cs
      else if is_linebreak c then rev cur # splitlines_from (c = CR) [] cs
      else splitlines_from False (c # cur) cs)"

definition splitlines :: "string \<Rightarrow> string list" where
  \<comment> \<open>\<open>s.splitlines()\<close>\<close>
  "splitlines s = splitlines_from False [] s"

fun split_on :: "char \<Rightarrow> string \<Rightarrow> string list" where
  \<comment> \<open>\<open>s.split(sep)\<close> for a one-character separator\<close>
  "split_on sep [] = [[]]"
| "split_on sep (c # cs) =
     (if c = sep then [] # split_on sep cs
      else (case split_on sep cs of [] \<Rightarrow> [[c]] | p # ps \<Rightarrow> (c # p) # ps))"

fun split_once :: "char \<Rightarrow> string \<Rightarrow> string list" where
  \<comment> \<open>\<open>s.split(sep, 1)\<close> for a one-character separator\<close>
  "split_once sep [] = [[]]"
| "split_once sep (c # cs) =
     (if c = sep then [[], cs]
      else (case split_once sep cs of [] \<Rightarrow> [[c]] | p # ps \<Rightarrow> (c # p) # ps))"

fun join :: "string \<Rightarrow> string list \<Rightarrow> string" where
  \<comment> \<open>\<open>sep.join(xs)\<close>\<close>
  "join sep [] = []"
| "join sep [x] = x"
| "join sep (x # y # ys) = x @ sep @ join sep (y # ys)"

datatype error = IndexError | PdfError

definition py_index :: "'a list \<Rightarrow> nat \<Rightarrow> error + 'a" where
  \<comment> \<open>\<open>xs[i]\<close> for \<open>i \<ge> 0\<close>\<close>
  "py_index xs i = (if i < length xs then Inr (xs ! i) else Inl IndexError)"

section \<open>Regular expressions: backtracking matcher\<close>

text \<open>
  The six patterns of the program use literals, character classes, greedy counted
  repetition of a class, greedy optional groups, sequencing and \<open>\<^verbatim>\<open>\b\<close>\<close>. The matcher
  returns the lengths of all matches at one position in the order in which Python's
  backtracking matcher tries them, so that the head of the list is the match \<open>re\<close> reports.
  A position is the previous character (\<open>None\<close> at the start of the subject) and the rest
  of the subject.
\<close>

datatype rx =
    Lit string
  | Set "char \<Rightarrow> bool"
  | Many "char \<Rightarrow> bool" nat "nat option"
  | Opt rx
  | Seq rx rx
  | WordB

definition prev_after :: "char option \<Rightarrow> string \<Rightarrow> nat \<Rightarrow> char option" where
  "prev_after p s n = (if take n s = [] then p else Some (last (take n s)))"

definition at_boundary :: "char option \<Rightarrow> string \<Rightarrow> bool" where
  "at_boundary p s =
     ((case p of None \<Rightarrow> False | Some c \<Rightarrow> is_word c) \<noteq> (case s of [] \<Rightarrow> False | c # _ \<Rightarrow> is_word c))"

fun rx_match :: "rx \<Rightarrow> char option \<Rightarrow> string \<Rightarrow> nat list" where
  "rx_match (Lit cs) p s = (if take (length cs) s = cs then [length cs] else [])"
| "rx_match (Set P) p s = (case s of [] \<Rightarrow> [] | c # _ \<Rightarrow> if P c then [1] else [])"
| "rx_match (Many P lo hi) p s =
     (let k = length (takeWhile P s);
          k' = (case hi of None \<Rightarrow> k | Some h \<Rightarrow> min h k)
      in rev [lo..<Suc k'])"
| "rx_match (Opt r) p s = rx_match r p s @ [0]"
| "rx_match (Seq r1 r2) p s =
     concat (map (\<lambda>n1. map (\<lambda>n2. n1 + n2) (rx_match r2 (prev_after p s n1) (drop n1 s)))
                 (rx_match r1 p s))"
| "rx_match WordB p s = (if at_boundary p s then [0] else [])"

fun search_from :: "rx \<Rightarrow> char option \<Rightarrow> string \<Rightarrow> string option" where
  "search_from r p [] = (case rx_match r p [] of [] \<Rightarrow> None | n # _ \<Rightarrow> Some (take n []))"
| "search_from r p (c # cs) =
     (case rx_match r p (c # cs) of
        [] \<Rightarrow> search_from r (Some c) cs
      | n # _ \<Rightarrow> Some (take n (c # cs)))"

definition re_search :: "rx \<Rightarrow> string \<Rightarrow> string option" where
  \<comment> \<open>\<open>R.search(s)\<close>, giving \<open>m.group(0)\<close>\<close>
  "re_search r s = search_from r None s"

function finditer_from :: "rx \<Rightarrow> char option \<Rightarrow> string \<Rightarrow> string list" where
  "finditer_from r p s =
     (case rx_match r p s of
        [] \<Rightarrow> (case s of [] \<Rightarrow> [] | c # cs \<Rightarrow> finditer_from r (Some c) cs)
      | n # _ \<Rightarrow>
          (if n = 0 \<or> s = []
           then take n s # (case s of [] \<Rightarrow> [] | c # cs \<Rightarrow> finditer_from r (Some c) cs)
           else take n s # finditer_from r (prev_after p s n) (drop n s)))"
  by pat_completeness auto
termination
  by (relation "measure (\<lambda>(r, p, s). length s)") auto

definition re_finditer :: "rx \<Rightarrow> string \<Rightarrow> string list" where
  \<comment> \<open>\<open>[m.group(0) for m in R.finditer(s)]\<close>: after a match the scan resumes at its end
      (one character further after an empty match)\<close>
  "re_finditer r s = finditer_from r None s"

subsection \<open>The patterns\<close>

definition PAN_REGEX :: rx where
  \<comment> \<open>\<open>\<^verbatim>\<open>\b[A-Z]{5}[0-9]{4}[A-Z]\b\<close>\<close>\<close>
  "PAN_REGEX = Seq WordB (Seq (Many is_AZ 5 (Some 5)) (Seq (Many is_09 4 (Some 4))
     (Seq (Set is_AZ) WordB)))"

definition AADHAAR_REGEX :: rx where
  \<comment> \<open>\<open>\<^verbatim>\<open>\b\d{4}\s?\d{4}\s?\d{4}\b\<close>\<close>\<close>
  "AADHAAR_REGEX = Seq WordB (Seq (Many is_digit 4 (Some 4)) (Seq (Opt (Set is_space))
     (Seq (Many is_digit 4 (Some 4)) (Seq (Opt (Set is_space))
     (Seq (Many is_digit 4 (Some 4)) WordB)))))"

definition EMAIL_REGEX :: rx where
  \<comment> \<open>\<open>\<^verbatim>\<open>[a-zA-Z0-9._%+-]+@[a-zA-Z0-9.-]+\.[a-zA-Z]{2,}\<close>\<close>\<close>
  "EMAIL_REGEX =
     Seq (Many (\<lambda>c. is_az c \<or> is_AZ c \<or> is_09 c \<or> c \<in> set ''._%+-'') 1 None)
    (Seq (Lit ''@'')
    (Seq (Many (\<lambda>c. is_az c \<or> is_AZ c \<or> is_09 c \<or> c \<in> set ''.-'') 1 None)
    (Seq (Lit ''.'') (Many (\<lambda>c. is_az c \<or> is_AZ c) 2 None))))"

definition PHONE_REGEX :: rx where
  \<comment> \<open>\<open>\<^verbatim>\<open>(\+91[-\s]?)?[6-9]\d{9}\<close>\<close>\<close>
  "PHONE_REGEX =
     Seq (Opt (Seq (Lit ''+91'') (Opt (Set (\<lambda>c. c = CHR ''-'' \<or> is_space c)))))
    (Seq (Set (\<lambda>c. c \<in> set ''6789'')) (Many is_digit 9 (Some 9)))"

definition IFSC_REGEX :: rx where
  \<comment> \<open>\<open>\<^verbatim>\<open>\b[A-Z]{4}0[A-Z0-9]{6}\b\<close>\<close>\<close>
  "IFSC_REGEX = Seq WordB (Seq (Many is_AZ 4 (Some 4)) (Seq (Lit ''0'')
     (Seq (Many (\<lambda>c. is_AZ c \<or> is_09 c) 6 (Some 6)) WordB)))"

definition ACCOUNT_REGEX :: rx where
  \<comment> \<open>\<open>\<^verbatim>\<open>\b\d{9,18}\b\<close>\<close>\<close>
  "ACCOUNT_REGEX = Seq WordB (Seq (Many is_digit 9 (Some 18)) WordB)"

section \<open>The field extractor\<close>

record ExtractedRecord =
  name :: "string option"
  email :: "string option"
  phone :: "string option"
  pan :: "string option"
  aadhaar :: "string option"
  address :: "string option"
  bank_account :: "string option"
  ifsc :: "string option"
  emergency_contact_name :: "string option"
  emergency_contact_phone :: "string option"
  source_file_name :: string

definition normalize_text :: "string \<Rightarrow> string" where
  \<comment> \<open>\<open>text.replace("\r", "\n")\<close>\<close>
  "normalize_text text = map (\<lambda>c. if c = CR then LF else c) text"

definition lines_of :: "string \<Rightarrow> string list" where
  \<comment> \<open>\<open>[ln.strip() for ln in norm.splitlines() if ln.strip()]\<close>\<close>
  "lines_of norm = map strip (filter (\<lambda>ln. strip ln \<noteq> []) (splitlines norm))"

definition digits_only :: "string \<Rightarrow> string" where
  \<comment> \<open>\<open>re.sub(r"\D", "", s)\<close>\<close>
  "digits_only s = filter is_digit s"

definition last10 :: "string \<Rightarrow> string" where
  \<comment> \<open>\<open>s[-10:]\<close>\<close>
  "last10 s = drop (length s - 10) s"

definition phone_of :: "string \<Rightarrow> string option" where
  \<comment> \<open>\<open>PHONE_REGEX.search(s)\<close>, then \<open>re.sub(r"\D", "", m.group(0))[-10:]\<close>\<close>
  "phone_of s = (case re_search PHONE_REGEX s of
                   None \<Rightarrow> None
                 | Some m \<Rightarrow> Some (last10 (digits_only m)))"

definition aadhaar_digits_of :: "string option \<Rightarrow> string" where
  \<comment> \<open>\<open>re.sub(r"\D", "", aadhaar) if aadhaar else ""\<close>; a match is never empty\<close>
  "aadhaar_digits_of a = (case a of None \<Rightarrow> [] | Some m \<Rightarrow> if m = [] then [] else digits_only m)"

fun account_loop :: "string \<Rightarrow> string list \<Rightarrow> string option" where
  \<comment> \<open>the loop over \<open>ACCOUNT_REGEX.finditer(norm)\<close>: \<open>continue\<close> on the Aadhaar, else \<open>break\<close>\<close>
  "account_loop aadhaar_digits [] = None"
| "account_loop aadhaar_digits (digits # ms) =
     (if digits = aadhaar_digits \<and> length digits = 12
      then account_loop aadhaar_digits ms
      else Some digits)"

fun first_index :: "('a \<Rightarrow> bool) \<Rightarrow> 'a list \<Rightarrow> nat option" where
  \<comment> \<open>\<open>for idx, ln in enumerate(lines): if P(ln): start = idx; break\<close>;
      \<open>None\<close> is the initial \<open>-1\<close>\<close>
  "first_index P [] = None"
| "first_index P (x # xs) =
     (if P x then Some 0 else map_option Suc (first_index P xs))"

definition label_value :: "string \<Rightarrow> error + string" where
  \<comment> \<open>\<open>parts = ln.split(":")\<close>; \<open>parts[1].strip()\<close> if \<open>len(parts) > 1\<close>, else \<open>ln.strip()\<close>\<close>
  "label_value ln =
     (let parts = split_on (CHR '':'') ln in
      if length parts > 1
      then (case py_index parts 1 of Inl e \<Rightarrow> Inl e | Inr p \<Rightarrow> Inr (strip p))
      else Inr (strip ln))"

fun block_phone :: "string list \<Rightarrow> string option" where
  "block_phone [] = None"
| "block_phone (ln # lns) =
     (case re_search PHONE_REGEX ln of
        None \<Rightarrow> block_phone lns
      | Some pm \<Rightarrow> Some (last10 (digits_only pm)))"

fun block_name :: "string list \<Rightarrow> error + string option" where
  "block_name [] = Inr None"
| "block_name (ln # lns) =
     (if contains ''name'' (lower ln)
      then (case label_value ln of Inl e \<Rightarrow> Inl e | Inr v \<Rightarrow> Inr (Some v))
      else block_name lns)"

definition emergency_of :: "string list \<Rightarrow> error + (string option \<times> string option)" where
  \<comment> \<open>the emergency block: (emergency name, emergency phone)\<close>
  "emergency_of lines =
     (case first_index (\<lambda>ln. contains ''emergency'' (lower ln)) lines of
        None \<Rightarrow> Inr (None, None)
      | Some ec_start \<Rightarrow>
          (let block = take 5 (drop ec_start lines) in
           case block_name block of
             Inl e \<Rightarrow> Inl e
           | Inr emergency_name \<Rightarrow> Inr (emergency_name, block_phone block)))"

fun candidate_name :: "string list \<Rightarrow> error + string option" where
  "candidate_name [] = Inr None"
| "candidate_name (ln # lns) =
     (let low = lower ln in
      if contains ''name'' low \<and> \<not> contains ''father'' low \<and> \<not> contains ''emergency'' low
      then (case label_value ln of Inl e \<Rightarrow> Inl e | Inr v \<Rightarrow> Inr (Some v))
      else candidate_name lns)"

definition section_keys :: "string list" where
  "section_keys = [''bank details'', ''bank account'', ''ifsc'', ''emergency contact'',
                   ''pan number'', ''aadhaar number'', ''candidate information'']"

fun address_loop :: "string list \<Rightarrow> string list" where
  \<comment> \<open>the lines after the address line, up to the next section header\<close>
  "address_loop [] = []"
| "address_loop (ln # lns) =
     (let low = lower ln in
      if list_ex (\<lambda>key. contains key low) section_keys then []
      else strip ln # address_loop lns)"

definition address_first :: "string \<Rightarrow> error + string list" where
  \<comment> \<open>\<open>parts = first_line.split(":", 1)\<close>; the text after the colon, if any\<close>
  "address_first first_line =
     (let parts = split_once (CHR '':'') first_line in
      if length parts > 1
      then (case py_index parts 1 of
              Inl e \<Rightarrow> Inl e
            | Inr p \<Rightarrow> Inr (if strip p \<noteq> [] then [strip p] else []))
      else Inr [])"

definition address_of :: "string list \<Rightarrow> error + string option" where
  "address_of lines =
     (case first_index (\<lambda>ln. contains ''address'' (lower ln)) lines of
        None \<Rightarrow> Inr None
      | Some addr_start \<Rightarrow>
          (case py_index lines addr_start of
             Inl e \<Rightarrow> Inl e
           | Inr first_line \<Rightarrow>
               (case address_first first_line of
                  Inl e \<Rightarrow> Inl e
                | Inr addr0 \<Rightarrow>
                    (let addr_lines = addr0 @ address_loop (drop (addr_start + 1) lines) in
                     Inr (if addr_lines \<noteq> [] then Some (join '', '' addr_lines) else None)))))"

definition bank_account_of :: "string \<Rightarrow> string option \<Rightarrow> string option" where
  "bank_account_of norm aadhaar_match =
     account_loop (aadhaar_digits_of aadhaar_match) (re_finditer ACCOUNT_REGEX norm)"

definition extract_fields_rule_based :: "string \<Rightarrow> string \<Rightarrow> error + ExtractedRecord" where
  "extract_fields_rule_based text file_name =
     (let norm = normalize_text text;
          lines = lines_of norm;
          email_m = re_search EMAIL_REGEX norm;
          phone_m = phone_of norm;
          pan_m = re_search PAN_REGEX norm;
          aadhaar_m = re_search AADHAAR_REGEX norm;
          ifsc_m = re_search IFSC_REGEX norm;
          bank = bank_account_of norm aadhaar_m
      in case emergency_of lines of
           Inl e \<Rightarrow> Inl e
         | Inr (emergency_name, emergency_phone) \<Rightarrow>
         (case candidate_name lines of
           Inl e \<Rightarrow> Inl e
         | Inr name_m \<Rightarrow>
         (case address_of lines of
           Inl e \<Rightarrow> Inl e
         | Inr address_m \<Rightarrow>
             Inr \<lparr> name = name_m, email = email_m, phone = phone_m, pan = pan_m,
                   aadhaar = aadhaar_m, address = address_m, bank_account = bank,
                   ifsc = ifsc_m, emergency_contact_name = emergency_name,
                   emergency_contact_phone = emergency_phone,
                   source_file_name = file_name \<rparr>)))"

section \<open>The batch loop\<close>

text \<open>
  The PDF library is outside the repository; it is a parameter. For the bytes of one file
  it raises (\<open>Inl\<close>) or gives the pages, and for each page \<open>extract_text()\<close> raises or returns
  \<open>None\<close> or a string.
\<close>

type_synonym pdf_library = "string \<Rightarrow> error + (error + string option) list"

fun pages_text_of :: "(error + string option) list \<Rightarrow> error + string list" where
  \<comment> \<open>\<open>[page.extract_text() or "" for page in pdf.pages]\<close>: the first page that raises ends it\<close>
  "pages_text_of [] = Inr []"
| "pages_text_of (pg # pgs) =
     (case pg of
        Inl e \<Rightarrow> Inl e
      | Inr t \<Rightarrow>
          (case pages_text_of pgs of
             Inl e \<Rightarrow> Inl e
           | Inr ts \<Rightarrow> Inr ((case t of None \<Rightarrow> [] | Some s \<Rightarrow> s) # ts)))"

definition extract_text_from_pdf_bytes :: "pdf_library \<Rightarrow> string \<Rightarrow> error + string" where
  \<comment> \<open>\<open>pdfplumber.open\<close> on the bytes, then the pages' texts joined with line feeds\<close>
  "extract_text_from_pdf_bytes pdf_open file_bytes =
     (case pdf_open file_bytes of
        Inl e \<Rightarrow> Inl e
      | Inr pages \<Rightarrow>
          (case pages_text_of pages of
             Inl e \<Rightarrow> Inl e
           | Inr pages_text \<Rightarrow> Inr (join [LF] pages_text)))"

fun extract_all :: "pdf_library \<Rightarrow> (string \<times> string) list \<Rightarrow> error + ExtractedRecord list" where
  \<comment> \<open>the loop \<open>for f in uploaded_files\<close> of the extraction button: no handler around it\<close>
  "extract_all pdf_open [] = Inr []"
| "extract_all pdf_open ((file_bytes, file_name) # fs) =
     (case extract_text_from_pdf_bytes pdf_open file_bytes of
        Inl e \<Rightarrow> Inl e
      | Inr text \<Rightarrow>
          (case extract_fields_rule_based text file_name of
             Inl e \<Rightarrow> Inl e
           | Inr row \<Rightarrow>
               (case extract_all pdf_open fs of
                  Inl e \<Rightarrow> Inl e
                | Inr rows \<Rightarrow> Inr (row # rows))))"

section \<open>Closed forms of the line heuristics\<close>

text \<open>
  What the loops over the lines compute, written with \<open>find\<close>, \<open>takeWhile\<close> and
  \<open>first_index\<close>; a later section proves that the loops compute them and that the
  extractor returns \<open>fields_of\<close>.
\<close>

definition upto_colon :: "string \<Rightarrow> string" where
  \<comment> \<open>the text before the first colon (all of it when there is none)\<close>
  "upto_colon s = takeWhile (\<lambda>c. c \<noteq> CHR '':'') s"

definition after_colon :: "string \<Rightarrow> string" where
  \<comment> \<open>the text after the first colon\<close>
  "after_colon s = tl (dropWhile (\<lambda>c. c \<noteq> CHR '':'') s)"

definition label_text :: "string \<Rightarrow> string" where
  \<comment> \<open>the value read from a name-bearing line\<close>
  "label_text ln = (if CHR '':'' \<in> set ln then strip (upto_colon (after_colon ln)) else strip ln)"

definition address_fragments :: "string list \<Rightarrow> nat \<Rightarrow> string list" where
  \<comment> \<open>the address fragments, for the address line at index \<open>i\<close>\<close>
  "address_fragments lines i =
     (if CHR '':'' \<in> set (lines ! i) \<and> strip (after_colon (lines ! i)) \<noteq> []
      then [strip (after_colon (lines ! i))] else []) @
     map strip (takeWhile (\<lambda>ln. \<not> list_ex (\<lambda>key. contains key (lower ln)) section_keys)
                  (drop (Suc i) lines))"

definition emergency_fields :: "string list \<Rightarrow> string option \<times> string option" where
  "emergency_fields lines =
     (case first_index (\<lambda>ln. contains ''emergency'' (lower ln)) lines of
        None \<Rightarrow> (None, None)
      | Some i \<Rightarrow>
          (map_option label_text
             (find (\<lambda>ln. contains ''name'' (lower ln)) (take 5 (drop i lines))),
           case find (\<lambda>ln. re_search PHONE_REGEX ln \<noteq> None) (take 5 (drop i lines)) of
             None \<Rightarrow> None | Some ln \<Rightarrow> phone_of ln))"

definition name_field :: "string list \<Rightarrow> string option" where
  "name_field lines =
     map_option label_text
       (find (\<lambda>ln. contains ''name'' (lower ln) \<and> \<not> contains ''father'' (lower ln)
                   \<and> \<not> contains ''emergency'' (lower ln)) lines)"

definition address_field :: "string list \<Rightarrow> string option" where
  "address_field lines =
     (case first_index (\<lambda>ln. contains ''address'' (lower ln)) lines of
        None \<Rightarrow> None
      | Some i \<Rightarrow> if address_fragments lines i \<noteq> []
                  then Some (join '', '' (address_fragments lines i)) else None)"

definition fields_of :: "string \<Rightarrow> string \<Rightarrow> ExtractedRecord" where
  "fields_of text f =
     \<lparr> name = name_field (lines_of (normalize_text text)),
       email = re_search EMAIL_REGEX (normalize_text text),
       phone = phone_of (normalize_text text),
       pan = re_search PAN_REGEX (normalize_text text),
       aadhaar = re_search AADHAAR_REGEX (normalize_text text),
       address = address_field (lines_of (normalize_text text)),
       bank_account = bank_account_of (normalize_text text)
                        (re_search AADHAAR_REGEX (normalize_text text)),
       ifsc = re_search IFSC_REGEX (normalize_text text),
       emergency_contact_name = fst (emergency_fields (lines_of (normalize_text text))),
       emergency_contact_phone = snd (emergency_fields (lines_of (normalize_text text))),
       source_file_name = f \<rparr>"

section \<open>Standalone digit runs\<close>

function word_runs :: "string \<Rightarrow> string list" where
  \<comment> \<open>the maximal runs of word characters, in order of appearance\<close>
  "word_runs [] = []"
| "word_runs (c # cs) =
     (if is_word c then (c # takeWhile is_word cs) # word_runs (dropWhile is_word cs)
      else word_runs cs)"
  by pat_completeness auto
termination
  by (relation "measure length") (auto simp: less_Suc_eq_le length_dropWhile_le)

definition standalone_digit_runs :: "string \<Rightarrow> string list" where
  \<comment> \<open>the runs of 9 to 18 digits with no word character before or after\<close>
  "standalone_digit_runs s =
     filter (\<lambda>w. list_all is_digit w \<and> 9 \<le> length w \<and> length w \<le> 18) (word_runs s)"

definition account_like :: "string \<Rightarrow> bool" where
  "account_like w = (list_all is_digit w \<and> 9 \<le> length w \<and> length w \<le> 18)"

section \<open>Patterns as the claims word them\<close>

definition SPEC_PHONE_REGEX :: rx where
  \<comment> \<open>the phone pattern as C5 words it: optional \<open>+91\<close> or \<open>91\<close>, then ten digits, the first 6 to 9\<close>
  "SPEC_PHONE_REGEX =
     Seq (Opt (Seq (Opt (Lit ''+'')) (Lit ''91'')))
    (Seq (Set (\<lambda>c. c \<in> set ''6789'')) (Many is_digit 9 (Some 9)))"

definition spec_aadhaar_form :: "string \<Rightarrow> bool" where
  \<comment> \<open>the Aadhaar forms as C8 words them: 12 digits, or 4-4-4 with single spaces\<close>
  "spec_aadhaar_form m =
     ((length m = 12 \<and> list_all is_digit m) \<or>
      (length m = 14 \<and> list_all is_digit (take 4 m) \<and> take 1 (drop 4 m) = '' '' \<and>
       list_all is_digit (take 4 (drop 5 m)) \<and> take 1 (drop 9 m) = '' '' \<and>
       list_all is_digit (drop 10 m)))"

section \<open>Forms of the phone and Aadhaar matches\<close>

text \<open>
  The strings the two patterns match, and what standing alone means for an occurrence
  \<open>pre @ m @ post\<close> in a text; a later section proves that \<open>search\<close> returns the leftmost
  occurrence of these forms.
\<close>

definition pos_prev :: "char option \<Rightarrow> string \<Rightarrow> char option" where
  \<comment> \<open>the character before the position that follows \<open>pre\<close>, in a subject that starts after \<open>p\<close>\<close>
  "pos_prev p pre = (if pre = [] then p else Some (last pre))"

definition phone_match_form :: "string \<Rightarrow> bool" where
  \<comment> \<open>an optional \<open>+91\<close>, itself optionally followed by one hyphen or whitespace character,
      then ten digits of which the first is 6 to 9\<close>
  "phone_match_form m =
     (\<exists>pre ten. m = pre @ ten \<and>
        (pre = [] \<or> pre = ''+91'' \<or>
         (\<exists>c. (c = CHR ''-'' \<or> is_space c) \<and> pre = ''+91'' @ [c])) \<and>
        length ten = 10 \<and> list_all is_digit ten \<and> hd ten \<in> set ''6789'')"

definition aadhaar_match_form :: "string \<Rightarrow> bool" where
  \<comment> \<open>three groups of four digits; each gap is empty or one whitespace character\<close>
  "aadhaar_match_form m =
     (\<exists>g1 s1 g2 s2 g3.
        m = g1 @ s1 @ g2 @ s2 @ g3 \<and>
        length g1 = 4 \<and> list_all is_digit g1 \<and>
        length g2 = 4 \<and> list_all is_digit g2 \<and>
        length g3 = 4 \<and> list_all is_digit g3 \<and>
        (s1 = [] \<or> (\<exists>c. is_space c \<and> s1 = [c])) \<and>
        (s2 = [] \<or> (\<exists>c. is_space c \<and> s2 = [c])))"

definition stands_alone :: "string \<Rightarrow> string \<Rightarrow> bool" where
  \<comment> \<open>no word character directly before (the end of \<open>pre\<close>) or after (the start of \<open>post\<close>)\<close>
  "stands_alone pre post =
     ((pre = [] \<or> \<not> is_word (last pre)) \<and> (post = [] \<or> \<not> is_word (hd post)))"

section \<open>Sample inputs\<close>

definition sample_address_text :: string where
  "sample_address_text = ''Address: 12 MG Road'' @ [LF] @ ''Bangalore'' @ [LF] @ ''Bank Details''"

definition sample_colons_text :: string where
  "sample_colons_text = ''Emergency Name: Ann: Lee'' @ [LF] @ ''Name: John: Smith''"

definition sample_grouped_text :: string where
  "sample_grouped_text = ''1234 5678 9012 123456789012''"

definition sample_line_broken_text :: string where
  "sample_line_broken_text = ''1234'' @ [LF] @ ''5678'' @ [LF] @ ''9012''"

definition sample_three_numbers_text :: string where
  "sample_three_numbers_text = ''Phone 9876543210 Aadhaar 123456789012 Account 12345678901''"

definition sample_grouped_then_plain_text :: string where
  "sample_grouped_then_plain_text =
     ''Aadhaar 1234 5678 9012 (123456789012), Account 12345678901''"


definition sample_two_aadhaar_text :: string where
  "sample_two_aadhaar_text = ''Aadhaar: 1234 5678 9012, formerly 111122223333''"


definition corrupt_pdf_open :: pdf_library where
  \<comment> \<open>a library that cannot open the file \<open>corrupt\<close>\<close>
  "corrupt_pdf_open file_bytes =
     (if file_bytes = ''corrupt'' then Inl PdfError else Inr [Inr (Some ''Name: Jane Doe'')])"

definition textless_pdf_open :: pdf_library where
  \<comment> \<open>a library for which the file \<open>scan\<close> has one page without text\<close>
  "textless_pdf_open file_bytes =
     (if file_bytes = ''scan'' then Inr [Inr None] else Inr [Inr (Some ''Name: Jane Doe'')])"

section \<open>The loops compute their closed forms\<close>

lemma split_on_unfold:
  "split_on sep s =
     (if sep \<in> set s
      then takeWhile (\<lambda>c. c \<noteq> sep) s # split_on sep (tl (dropWhile (\<lambda>c. c \<noteq> sep) s))
      else [s])"
  by (induction s) auto

lemma split_once_unfold:
  "split_once sep s =
     (if sep \<in> set s
      then [takeWhile (\<lambda>c. c \<noteq> sep) s, tl (dropWhile (\<lambda>c. c \<noteq> sep) s)]
      else [s])"
  by (induction s) auto

lemma split_on_first:
  "\<exists>qs. split_on sep s = takeWhile (\<lambda>c. c \<noteq> sep) s # qs"
proof (cases "sep \<in> set s")
  case True
  then show ?thesis using split_on_unfold [of sep s] by simp
next
  case False
  then have t: "takeWhile (\<lambda>c. c \<noteq> sep) s = s" by (auto simp: takeWhile_eq_all_conv)
  have "split_on sep s = [s]" using False split_on_unfold [of sep s] by simp
  then have "split_on sep s = takeWhile (\<lambda>c. c \<noteq> sep) s # []" by (simp add: t)
  then show ?thesis by blast
qed

lemma split_on_second:
  assumes "sep \<in> set s"
  shows "length (split_on sep s) > 1"
    and "split_on sep s ! 1 = takeWhile (\<lambda>c. c \<noteq> sep) (tl (dropWhile (\<lambda>c. c \<noteq> sep) s))"
proof -
  let ?rest = "tl (dropWhile (\<lambda>c. c \<noteq> sep) s)"
  have a: "split_on sep s = takeWhile (\<lambda>c. c \<noteq> sep) s # split_on sep ?rest"
    using assms split_on_unfold [of sep s] by simp
  obtain qs where b: "split_on sep ?rest = takeWhile (\<lambda>c. c \<noteq> sep) ?rest # qs"
    using split_on_first [of sep ?rest] by blast
  show "length (split_on sep s) > 1" using a b by simp
  show "split_on sep s ! 1 = takeWhile (\<lambda>c. c \<noteq> sep) ?rest" using a b by simp
qed

lemma label_value_eq:
  "label_value ln =
     Inr (if CHR '':'' \<in> set ln then strip (upto_colon (after_colon ln)) else strip ln)"
proof (cases "CHR '':'' \<in> set ln")
  case True
  from split_on_second [OF True] show ?thesis
    using True by (simp add: label_value_def py_index_def upto_colon_def after_colon_def)
next
  case False
  then have "split_on (CHR '':'') ln = [ln]"
    using split_on_unfold [of "CHR '':''" ln] by simp
  then show ?thesis using False by (simp add: label_value_def)
qed

lemma block_name_eq:
  "block_name block =
     Inr (map_option label_text (find (\<lambda>ln. contains ''name'' (lower ln)) block))"
  by (induction block) (simp_all add: label_value_eq label_text_def)

lemma candidate_name_eq:
  "candidate_name lines =
     Inr (map_option label_text
       (find (\<lambda>ln. contains ''name'' (lower ln) \<and> \<not> contains ''father'' (lower ln)
                   \<and> \<not> contains ''emergency'' (lower ln)) lines))"
  by (induction lines) (simp_all add: label_value_eq label_text_def Let_def)

lemma block_phone_eq:
  "block_phone block =
     (case find (\<lambda>ln. re_search PHONE_REGEX ln \<noteq> None) block of
        None \<Rightarrow> None | Some ln \<Rightarrow> phone_of ln)"
  by (induction block) (auto simp: phone_of_def split: option.splits)

lemma first_index_None: "first_index P xs = None \<longleftrightarrow> (\<forall>x \<in> set xs. \<not> P x)"
  by (induction xs) auto

lemma first_index_Some:
  "first_index P xs = Some i \<longleftrightarrow> i < length xs \<and> P (xs ! i) \<and> (\<forall>j < i. \<not> P (xs ! j))"
proof (induction xs arbitrary: i)
  case Nil
  then show ?case by simp
next
  case (Cons x xs)
  show ?case
  proof (cases "P x")
    case True
    then show ?thesis by (cases i) auto
  next
    case False
    show ?thesis
    proof (cases i)
      case 0
      then show ?thesis using False by auto
    next
      case (Suc k)
      have "(\<forall>j<Suc k. \<not> P ((x # xs) ! j)) \<longleftrightarrow> (\<forall>j<k. \<not> P (xs ! j))"
        using False by (auto simp: less_Suc_eq_0_disj)
      then show ?thesis using False Suc Cons.IH [of k] by auto
    qed
  qed
qed

lemma address_loop_eq:
  "address_loop lns =
     map strip (takeWhile (\<lambda>ln. \<not> list_ex (\<lambda>key. contains key (lower ln)) section_keys) lns)"
  by (induction lns) (simp_all add: Let_def)

lemma address_first_eq:
  "address_first ln =
     Inr (if CHR '':'' \<in> set ln \<and> strip (after_colon ln) \<noteq> [] then [strip (after_colon ln)] else [])"
  using split_once_unfold [of "CHR '':''" ln]
  by (simp add: address_first_def py_index_def after_colon_def)

lemma emergency_of_eq:
  "emergency_of lines =
     Inr (case first_index (\<lambda>ln. contains ''emergency'' (lower ln)) lines of
            None \<Rightarrow> (None, None)
          | Some i \<Rightarrow>
              (map_option label_text
                 (find (\<lambda>ln. contains ''name'' (lower ln)) (take 5 (drop i lines))),
               case find (\<lambda>ln. re_search PHONE_REGEX ln \<noteq> None) (take 5 (drop i lines)) of
                 None \<Rightarrow> None | Some ln \<Rightarrow> phone_of ln))"
  by (simp add: emergency_of_def block_name_eq block_phone_eq split: option.splits)

lemma address_of_eq:
  "address_of lines =
     Inr (case first_index (\<lambda>ln. contains ''address'' (lower ln)) lines of
            None \<Rightarrow> None
          | Some i \<Rightarrow> if address_fragments lines i \<noteq> []
                      then Some (join '', '' (address_fragments lines i)) else None)"
proof (cases "first_index (\<lambda>ln. contains ''address'' (lower ln)) lines")
  case None
  then show ?thesis by (simp add: address_of_def)
next
  case (Some i)
  then have "i < length lines" by (simp add: first_index_Some)
  then have "py_index lines i = Inr (lines ! i)" by (simp add: py_index_def)
  then show ?thesis
    using Some
    by (simp add: address_of_def address_first_eq address_loop_eq address_fragments_def Let_def)
qed

lemma extract_fields_eq: "extract_fields_rule_based text f = Inr (fields_of text f)"
proof -
  have a: "emergency_of (lines_of (normalize_text text)) =
             Inr (emergency_fields (lines_of (normalize_text text)))"
    unfolding emergency_fields_def by (rule emergency_of_eq)
  have b: "candidate_name (lines_of (normalize_text text)) =
             Inr (name_field (lines_of (normalize_text text)))"
    unfolding name_field_def by (rule candidate_name_eq)
  have c: "address_of (lines_of (normalize_text text)) =
             Inr (address_field (lines_of (normalize_text text)))"
    unfolding address_field_def by (rule address_of_eq)
  show ?thesis
    unfolding extract_fields_rule_based_def Let_def a b c fields_of_def
    by (simp add: case_prod_beta)
qed

lemma account_loop_not_skipped:
  "account_loop ad ms = Some d \<Longrightarrow> \<not> (d = ad \<and> length d = 12)"
  by (induction ms) (auto split: if_splits)

lemma account_loop_find:
  "account_loop ad ms = find (\<lambda>d. \<not> (d = ad \<and> length d = 12)) ms"
  by (induction ms) auto

lemma field_projections:
  assumes "extract_fields_rule_based text f = Inr r"
  shows "name r = name_field (lines_of (normalize_text text))"
    and "address r = address_field (lines_of (normalize_text text))"
    and "emergency_contact_name r = fst (emergency_fields (lines_of (normalize_text text)))"
    and "emergency_contact_phone r = snd (emergency_fields (lines_of (normalize_text text)))"
    and "bank_account r = bank_account_of (normalize_text text) (aadhaar r)"
    and "aadhaar r = re_search AADHAAR_REGEX (normalize_text text)"
    and "phone r = phone_of (normalize_text text)"
    and "email r = re_search EMAIL_REGEX (normalize_text text)"
    and "pan r = re_search PAN_REGEX (normalize_text text)"
    and "ifsc r = re_search IFSC_REGEX (normalize_text text)"
    and "source_file_name r = f"
proof -
  have r: "r = fields_of text f" using assms by (simp add: extract_fields_eq)
  show "name r = name_field (lines_of (normalize_text text))" by (simp add: r fields_of_def)
  show "address r = address_field (lines_of (normalize_text text))" by (simp add: r fields_of_def)
  show "emergency_contact_name r = fst (emergency_fields (lines_of (normalize_text text)))"
    by (simp add: r fields_of_def)
  show "emergency_contact_phone r = snd (emergency_fields (lines_of (normalize_text text)))"
    by (simp add: r fields_of_def)
  show "bank_account r = bank_account_of (normalize_text text) (aadhaar r)"
    by (simp add: r fields_of_def)
  show "aadhaar r = re_search AADHAAR_REGEX (normalize_text text)" by (simp add: r fields_of_def)
  show "phone r = phone_of (normalize_text text)" by (simp add: r fields_of_def)
  show "email r = re_search EMAIL_REGEX (normalize_text text)" by (simp add: r fields_of_def)
  show "pan r = re_search PAN_REGEX (normalize_text text)" by (simp add: r fields_of_def)
  show "ifsc r = re_search IFSC_REGEX (normalize_text text)" by (simp add: r fields_of_def)
  show "source_file_name r = f" by (simp add: r fields_of_def)
qed

section \<open>Lines are trimmed pieces of the text\<close>

lemma last_dropWhile: "dropWhile P xs \<noteq> [] \<Longrightarrow> last (dropWhile P xs) = last xs"
proof -
  assume a: "dropWhile P xs \<noteq> []"
  have "last xs = last (takeWhile P xs @ dropWhile P xs)" by simp
  also have "\<dots> = last (dropWhile P xs)" using a by (simp only: last_append if_False)
  finally show ?thesis by simp
qed

lemma strip_ends:
  "strip s \<noteq> [] \<Longrightarrow> \<not> is_space (hd (strip s)) \<and> \<not> is_space (last (strip s))"
proof -
  assume ne: "strip s \<noteq> []"
  let ?u = "dropWhile is_space s"
  let ?v = "dropWhile is_space (rev ?u)"
  have v: "?v \<noteq> []" using ne by (simp add: strip_def)
  have u: "?u \<noteq> []"
  proof
    assume "?u = []"
    then have "?v = []" by (simp only: rev.simps dropWhile.simps)
    with v show False by simp
  qed
  have hv: "\<not> is_space (hd ?v)" using v by (rule hd_dropWhile)
  have hu: "\<not> is_space (hd ?u)" using u by (rule hd_dropWhile)
  have "last ?v = last (rev ?u)" using v by (rule last_dropWhile)
  also have "\<dots> = hd ?u" using u by (simp add: last_rev)
  finally have lv: "\<not> is_space (last ?v)" using hu by simp
  have "hd (strip s) = last ?v" using v by (simp add: strip_def hd_rev)
  moreover have "last (strip s) = hd ?v" using v by (simp add: strip_def last_rev)
  ultimately show ?thesis using hv lv by simp
qed

lemma strip_fixed:
  assumes "t = [] \<or> (\<not> is_space (hd t) \<and> \<not> is_space (last t))"
  shows "strip t = t"
proof (cases "t = []")
  case True
  then show ?thesis by (simp add: strip_def)
next
  case False
  then have a: "\<not> is_space (hd t)" and b: "\<not> is_space (last t)" using assms by auto
  have "dropWhile is_space t = t" using False a by (cases t) auto
  moreover have "dropWhile is_space (rev t) = rev t"
    using False b by (cases "rev t") (auto simp: last_rev [symmetric] hd_rev)
  ultimately show ?thesis by (simp add: strip_def)
qed

lemma strip_strip: "strip (strip s) = strip s"
  using strip_ends [of s] strip_fixed [of "strip s"] by blast

lemma lines_of_trimmed: "ln \<in> set (lines_of s) \<Longrightarrow> strip ln = ln \<and> ln \<noteq> []"
  by (auto simp: lines_of_def strip_strip)

lemma address_fragments_trimmed:
  assumes "\<forall>ln \<in> set lines. strip ln = ln"
  shows "address_fragments lines i =
     (if CHR '':'' \<in> set (lines ! i) \<and> strip (after_colon (lines ! i)) \<noteq> []
      then [strip (after_colon (lines ! i))] else []) @
     takeWhile (\<lambda>ln. \<not> list_ex (\<lambda>key. contains key (lower ln)) section_keys)
       (drop (Suc i) lines)"
proof -
  have "\<forall>ln \<in> set (takeWhile (\<lambda>ln. \<not> list_ex (\<lambda>key. contains key (lower ln)) section_keys)
       (drop (Suc i) lines)). strip ln = ln"
    using assms by (meson in_set_dropD set_takeWhileD)
  then have "map strip (takeWhile (\<lambda>ln. \<not> list_ex (\<lambda>key. contains key (lower ln)) section_keys)
       (drop (Suc i) lines)) = takeWhile (\<lambda>ln. \<not> list_ex (\<lambda>key. contains key (lower ln)) section_keys)
       (drop (Suc i) lines)"
    by (simp add: map_idI)
  then show ?thesis by (simp add: address_fragments_def)
qed

lemma contains_iff: "contains n h \<longleftrightarrow> (\<exists>pre post. h = pre @ n @ post)"
proof (induction h)
  case Nil
  then show ?case by auto
next
  case (Cons c cs)
  show ?case
  proof
    assume "contains n (c # cs)"
    then consider "take (length n) (c # cs) = n" | "contains n cs" by auto
    then show "\<exists>pre post. c # cs = pre @ n @ post"
    proof cases
      case 1
      then have "c # cs = [] @ n @ drop (length n) (c # cs)"
        by (metis append_Nil append_take_drop_id)
      then show ?thesis by blast
    next
      case 2
      then obtain pre post where "cs = pre @ n @ post" using Cons.IH by blast
      then have "c # cs = (c # pre) @ n @ post" by simp
      then show ?thesis by blast
    qed
  next
    assume "\<exists>pre post. c # cs = pre @ n @ post"
    then obtain pre post where e: "c # cs = pre @ n @ post" by blast
    show "contains n (c # cs)"
    proof (cases pre)
      case Nil
      then have "take (length n) (c # cs) = n" using e by simp
      then show ?thesis by simp
    next
      case (Cons a pre')
      then have "cs = pre' @ n @ post" using e by simp
      then have "contains n cs" using Cons.IH by blast
      then show ?thesis by simp
    qed
  qed
qed





section \<open>The batch loop\<close>

lemma phone_of_map:
  "phone_of s = map_option (\<lambda>m. last10 (digits_only m)) (re_search PHONE_REGEX s)"
  by (simp add: phone_of_def split: option.splits)

lemma all_none_empty:
  "extract_fields_rule_based [] f =
     Inr \<lparr> name = None, email = None, phone = None, pan = None, aadhaar = None,
           address = None, bank_account = None, ifsc = None, emergency_contact_name = None,
           emergency_contact_phone = None, source_file_name = f \<rparr>"
  by code_simp

lemma extract_all_ok:
  "\<forall>d \<in> set files. \<exists>t. extract_text_from_pdf_bytes lib (fst d) = Inr t \<Longrightarrow>
   extract_all lib files =
     Inr (map (\<lambda>d. fields_of (projr (extract_text_from_pdf_bytes lib (fst d))) (snd d)) files)"
proof (induction files)
  case Nil
  then show ?case by simp
next
  case (Cons d ds)
  obtain b n where d: "d = (b, n)" by (cases d)
  obtain t where t: "extract_text_from_pdf_bytes lib b = Inr t" using Cons.prems d by auto
  have "extract_all lib ds =
     Inr (map (\<lambda>d. fields_of (projr (extract_text_from_pdf_bytes lib (fst d))) (snd d)) ds)"
    using Cons by simp
  then show ?case by (simp add: d t extract_fields_eq)
qed

lemma extract_all_raises:
  "\<exists>d \<in> set files. \<exists>e. extract_text_from_pdf_bytes lib (fst d) = Inl e \<Longrightarrow>
   \<exists>e. extract_all lib files = Inl e"
proof (induction files)
  case Nil
  then show ?case by simp
next
  case (Cons d ds)
  obtain b n where d: "d = (b, n)" by (cases d)
  show ?case
  proof (cases "extract_text_from_pdf_bytes lib b")
    case (Inl e)
    then show ?thesis by (simp add: d)
  next
    case (Inr t)
    then have "\<exists>d \<in> set ds. \<exists>e. extract_text_from_pdf_bytes lib (fst d) = Inl e"
      using Cons.prems d by auto
    then obtain e where "extract_all lib ds = Inl e" using Cons.IH by blast
    then show ?thesis by (simp add: d Inr extract_fields_eq)
  qed
qed

section \<open>The matcher\<close>

lemma rx_match_Seq_iff:
  "n \<in> set (rx_match (Seq r1 r2) p s) \<longleftrightarrow>
     (\<exists>n1 n2. n = n1 + n2 \<and> n1 \<in> set (rx_match r1 p s) \<and>
              n2 \<in> set (rx_match r2 (prev_after p s n1) (drop n1 s)))"
  by auto

lemma rx_match_Opt_iff: "n \<in> set (rx_match (Opt r) p s) \<longleftrightarrow> n = 0 \<or> n \<in> set (rx_match r p s)"
  by auto

lemma rx_match_Lit_iff:
  "n \<in> set (rx_match (Lit cs) p s) \<longleftrightarrow> n = length cs \<and> take (length cs) s = cs"
  by auto

lemma rx_match_Set_iff:
  "n \<in> set (rx_match (Set P) p s) \<longleftrightarrow> n = 1 \<and> s \<noteq> [] \<and> P (hd s)"
  by (cases s) auto

lemma rx_match_Many_iff:
  "n \<in> set (rx_match (Many P lo (Some hi)) p s) \<longleftrightarrow>
     lo \<le> n \<and> n \<le> hi \<and> n \<le> length (takeWhile P s)"
  by (simp add: Let_def) arith

lemma rx_match_WordB_iff: "n \<in> set (rx_match WordB p s) \<longleftrightarrow> n = 0 \<and> at_boundary p s"
  by auto

lemma rx_match_exact:
  "rx_match (Many P k (Some k)) p s = (if k \<le> length (takeWhile P s) then [k] else [])"
  by (simp add: Let_def min_def)

lemma prev_after_0: "prev_after p s 0 = p"
  by (simp add: prev_after_def)

lemma takeWhile_all: "n \<le> length (takeWhile P s) \<Longrightarrow> list_all P (take n s)"
proof -
  assume a: "n \<le> length (takeWhile P s)"
  have "take n s = take n (takeWhile P s @ dropWhile P s)" by simp
  also have "\<dots> = take n (takeWhile P s)" using a by (simp only: take_append) simp
  finally have "set (take n s) \<subseteq> set (takeWhile P s)" by (simp add: set_take_subset)
  then show ?thesis by (auto simp: list_all_iff dest: set_takeWhileD)
qed

lemma takeWhile_le_length: "n \<le> length (takeWhile P s) \<Longrightarrow> n \<le> length s"
  by (meson le_trans length_takeWhile_le)

lemma search_from_Some:
  "search_from r p s = Some m \<Longrightarrow>
     \<exists>pre post n. s = pre @ post \<and> n \<in> set (rx_match r (prev_after p s (length pre)) post) \<and>
                  m = take n post"
proof (induction s arbitrary: p)
  case Nil
  show ?case
  proof (cases "rx_match r p []")
    case Nil
    then show ?thesis using Nil.prems by simp
  next
    case (Cons n ns)
    then have m: "m = take n []" using Nil.prems by simp
    have "[] = [] @ ([]::string) \<and>
          n \<in> set (rx_match r (prev_after p [] (length ([]::string))) []) \<and> m = take n []"
      using Cons m by (simp add: prev_after_def)
    then show ?thesis by (intro exI)
  qed
next
  case (Cons c cs)
  show ?case
  proof (cases "rx_match r p (c # cs)")
    case Nil
    then have "search_from r (Some c) cs = Some m" using Cons.prems by simp
    from Cons.IH [OF this] obtain pre post n where
      a: "cs = pre @ post" and b: "n \<in> set (rx_match r (prev_after (Some c) cs (length pre)) post)"
         and c: "m = take n post"
      by (elim exE conjE)
    have "prev_after p (c # cs) (length (c # pre)) = prev_after (Some c) cs (length pre)"
      using a by (cases pre) (simp_all add: prev_after_def)
    then have "c # cs = (c # pre) @ post \<and>
               n \<in> set (rx_match r (prev_after p (c # cs) (length (c # pre))) post) \<and>
               m = take n post"
      using a b c by simp
    then show ?thesis by (intro exI)
  next
    case (Cons n ns)
    then have m: "m = take n (c # cs)" using Cons.prems by simp
    have "c # cs = [] @ (c # cs) \<and>
               n \<in> set (rx_match r (prev_after p (c # cs) (length ([]::string))) (c # cs)) \<and>
               m = take n (c # cs)"
      using Cons m by (simp add: prev_after_def)
    then show ?thesis by (intro exI)
  qed
qed

lemma prev_after_prefix:
  "prev_after None (pre @ post) (length pre) = (if pre = [] then None else Some (last pre))"
  by (simp add: prev_after_def)

lemma at_boundary_start_word:
  "post \<noteq> [] \<Longrightarrow> is_word (hd post) \<Longrightarrow>
   at_boundary (if pre = [] then None else Some (last pre)) post \<longleftrightarrow>
     (pre = [] \<or> \<not> is_word (last pre))"
  by (cases post) (auto simp: at_boundary_def)

lemma at_boundary_end_word:
  "is_word c \<Longrightarrow> at_boundary (Some c) post \<longleftrightarrow> (post = [] \<or> \<not> is_word (hd post))"
  by (cases post) (auto simp: at_boundary_def)

lemma digit_is_word: "is_digit c \<Longrightarrow> is_word c"
  by (simp add: is_digit_def is_word_def Let_def)

lemma space_not_word: "is_space c \<Longrightarrow> \<not> is_word c"
  by (auto simp: is_space_def is_word_def Let_def)

lemma space_not_digit: "is_space c \<Longrightarrow> \<not> is_digit c"
  by (auto simp: is_space_def is_digit_def Let_def)

section \<open>The account pattern finds the standalone digit runs\<close>

lemma inside_digit_run:
  assumes "0 < n" and "n < length (takeWhile is_digit s)"
  shows "\<not> at_boundary (prev_after p s n) (drop n s)"
proof -
  have len: "n < length s" using assms(2) by (meson length_takeWhile_le less_le_trans)
  have d: "\<forall>i < length (takeWhile is_digit s). is_digit (s ! i)"
    by (metis nth_mem set_takeWhileD takeWhile_nth)
  have a: "is_word (s ! (n - 1))" using d assms by (simp add: digit_is_word)
  have b: "is_word (s ! n)" using d assms by (simp add: digit_is_word)
  have "take n s \<noteq> []" using assms(1) len by auto
  moreover have "last (take n s) = s ! (n - 1)"
  proof -
    have "take n s \<noteq> []" using assms(1) len by auto
    then have "last (take n s) = take n s ! (length (take n s) - 1)" by (rule last_conv_nth)
    also have "\<dots> = s ! (n - 1)" using assms(1) len by simp
    finally show ?thesis .
  qed
  ultimately have p: "prev_after p s n = Some (s ! (n - 1))" by (simp add: prev_after_def)
  have "drop n s = s ! n # drop (Suc n) s" using len by (simp add: Cons_nth_drop_Suc)
  then show ?thesis using a b p by (simp add: at_boundary_def)
qed

lemma concat_boundary_filter:
  "concat (map (\<lambda>n. map (\<lambda>n2. n + n2) (rx_match WordB (q n) (t n))) ns) =
     filter (\<lambda>n. at_boundary (q n) (t n)) ns"
  by (induction ns) auto

lemma seq_wordb:
  "rx_match (Seq r WordB) p s =
     filter (\<lambda>n. at_boundary (prev_after p s n) (drop n s)) (rx_match r p s)"
  by (simp only: rx_match.simps(5) concat_boundary_filter)

lemma wordb_seq:
  "rx_match (Seq WordB r) p s = (if at_boundary p s then rx_match r p s else [])"
proof (cases "at_boundary p s")
  case True
  then have "rx_match WordB p s = [0]" by simp
  then have "rx_match (Seq WordB r) p s =
               map (\<lambda>n2. 0 + n2) (rx_match r (prev_after p s 0) (drop 0 s))"
    by (simp only: rx_match.simps(5) list.map concat.simps append_Nil2)
  then show ?thesis using True by (simp add: prev_after_0)
next
  case False
  then have "rx_match WordB p s = []" by simp
  then have "rx_match (Seq WordB r) p s = []"
    by (simp only: rx_match.simps(5) list.map concat.simps)
  then show ?thesis using False by simp
qed

lemma many_bounded:
  "rx_match (Many P lo (Some hi)) p s = rev [lo..<Suc (min hi (length (takeWhile P s)))]"
  by (simp only: rx_match.simps(3) Let_def option.case)

lemma account_tail:
  "rx_match (Seq (Many is_digit 9 (Some 18)) WordB) p s =
     (let k = length (takeWhile is_digit s) in
      if 9 \<le> k \<and> k \<le> 18 \<and> at_boundary (prev_after p s k) (drop k s) then [k] else [])"
proof -
  let ?k = "length (takeWhile is_digit s)"
  let ?B = "\<lambda>n. at_boundary (prev_after p s n) (drop n s)"
  have m: "rx_match (Seq (Many is_digit 9 (Some 18)) WordB) p s =
             filter ?B (rev [9..<Suc (min 18 ?k)])"
    by (simp only: seq_wordb many_bounded)
  have inside: "filter ?B (rev [9..<j]) = []" if "j \<le> ?k" for j
  proof -
    have "\<forall>n \<in> set (rev [9..<j]). \<not> ?B n"
    proof
      fix n assume "n \<in> set (rev [9..<j])"
      then have "0 < n" and "n < ?k" using that by auto
      then show "\<not> ?B n" by (rule inside_digit_run)
    qed
    then show ?thesis by (simp only: filter_empty_conv)
  qed
  show ?thesis
  proof (cases "9 \<le> ?k \<and> ?k \<le> 18")
    case True
    then have "min 18 ?k = ?k" by simp
    moreover have "[9..<Suc ?k] = [9..<?k] @ [?k]" using True by (simp only: upt_Suc_append)
    ultimately have "rev [9..<Suc (min 18 ?k)] = ?k # rev [9..<?k]"
      by (simp only: rev_append rev.simps append.simps)
    then have e: "rx_match (Seq (Many is_digit 9 (Some 18)) WordB) p s =
                 (if ?B ?k then [?k] else [])"
      unfolding m using inside [of ?k] by (simp only: filter.simps le_refl)
    show ?thesis unfolding Let_def e using True by simp
  next
    case False
    then consider "?k < 9" | "18 < ?k" by linarith
    then have "filter ?B (rev [9..<Suc (min 18 ?k)]) = []"
    proof cases
      case 1
      then have "[9..<Suc (min 18 ?k)] = []" by simp
      then show ?thesis by (simp only: rev.simps filter.simps)
    next
      case 2
      then have "Suc (min 18 ?k) \<le> ?k" by simp
      then show ?thesis by (rule inside)
    qed
    then have e: "rx_match (Seq (Many is_digit 9 (Some 18)) WordB) p s = []"
      unfolding m .
    show ?thesis unfolding Let_def e using False by auto
  qed
qed

lemma account_match_raw:
  "rx_match ACCOUNT_REGEX p s =
     (let k = length (takeWhile is_digit s) in
      if at_boundary p s \<and> 9 \<le> k \<and> k \<le> 18 \<and> at_boundary (prev_after p s k) (drop k s)
      then [k] else [])"
proof -
  have h: "rx_match ACCOUNT_REGEX p s =
          (if at_boundary p s then rx_match (Seq (Many is_digit 9 (Some 18)) WordB) p s else [])"
    unfolding ACCOUNT_REGEX_def by (rule wordb_seq)
  show ?thesis unfolding h account_tail Let_def by simp
qed

lemma digits_of_word_run:
  "list_all is_digit (takeWhile is_word s) \<longleftrightarrow> takeWhile is_digit s = takeWhile is_word s"
  by (induction s) (auto dest: digit_is_word)

lemma end_boundary_iff:
  assumes "0 < length (takeWhile is_digit s)"
  shows "at_boundary (prev_after p s (length (takeWhile is_digit s)))
           (drop (length (takeWhile is_digit s)) s)
         \<longleftrightarrow> takeWhile is_digit s = takeWhile is_word s"
proof -
  let ?D = "takeWhile is_digit s"
  let ?R = "dropWhile is_digit s"
  have s: "s = ?D @ ?R" by simp
  have D: "?D \<noteq> []" using assms by auto
  have dr: "drop (length ?D) s = ?R" by (metis append_eq_conv_conj s)
  have tk: "take (length ?D) s = ?D" by (metis append_eq_conv_conj s)
  have "last ?D \<in> set ?D" using D by (rule last_in_set)
  then have w: "is_word (last ?D)" by (auto dest: set_takeWhileD digit_is_word)
  have pa: "prev_after p s (length ?D) = Some (last ?D)"
    using D by (simp add: prev_after_def tk)
  have all: "\<forall>x \<in> set ?D. is_word x" by (auto dest: set_takeWhileD digit_is_word)
  have "takeWhile is_word s = takeWhile is_word (?D @ ?R)" by simp
  also have "\<dots> = ?D @ takeWhile is_word ?R"
    by (rule takeWhile_append2) (use all in blast)
  finally have W: "takeWhile is_word s = ?D @ takeWhile is_word ?R" .
  have "at_boundary (Some (last ?D)) ?R \<longleftrightarrow> (?R = [] \<or> \<not> is_word (hd ?R))"
    using w by (rule at_boundary_end_word)
  also have "\<dots> \<longleftrightarrow> takeWhile is_word ?R = []"
    by (cases ?R) (auto simp del: dropWhile_eq_Nil_conv)
  also have "\<dots> \<longleftrightarrow> ?D = takeWhile is_word s" unfolding W by simp
  finally show ?thesis unfolding pa dr by auto
qed

lemma account_match:
  "rx_match ACCOUNT_REGEX p s =
     (if at_boundary p s \<and> account_like (takeWhile is_word s)
      then [length (takeWhile is_word s)] else [])"
proof -
  let ?D = "takeWhile is_digit s"
  let ?W = "takeWhile is_word s"
  have "(9 \<le> length ?D \<and> length ?D \<le> 18 \<and>
         at_boundary (prev_after p s (length ?D)) (drop (length ?D) s))
        \<longleftrightarrow> (9 \<le> length ?D \<and> length ?D \<le> 18 \<and> ?D = ?W)"
  proof (cases "0 < length ?D")
    case True
    from end_boundary_iff [OF True, of p] show ?thesis by simp
  next
    case False
    then show ?thesis by simp
  qed
  also have "\<dots> \<longleftrightarrow> account_like ?W"
    using digits_of_word_run [of s] by (auto simp: account_like_def)
  finally have c: "(9 \<le> length ?D \<and> length ?D \<le> 18 \<and>
         at_boundary (prev_after p s (length ?D)) (drop (length ?D) s)) \<longleftrightarrow> account_like ?W" .
  have l: "account_like ?W \<Longrightarrow> length ?D = length ?W"
    using digits_of_word_run [of s] by (simp add: account_like_def)
  show ?thesis
  proof (cases "at_boundary p s \<and> account_like ?W")
    case True
    then show ?thesis using c l by (simp add: account_match_raw Let_def)
  next
    case False
    then show ?thesis using c by (auto simp: account_match_raw Let_def)
  qed
qed

lemma finditer_nomatch_Nil: "rx_match r p [] = [] \<Longrightarrow> finditer_from r p [] = []"
  by (subst finditer_from.simps) simp

lemma finditer_nomatch_Cons:
  "rx_match r p (c # cs) = [] \<Longrightarrow> finditer_from r p (c # cs) = finditer_from r (Some c) cs"
  by (subst finditer_from.simps) simp

lemma finditer_match:
  "rx_match r p s = n # ns \<Longrightarrow> 0 < n \<Longrightarrow> s \<noteq> [] \<Longrightarrow>
   finditer_from r p s = take n s # finditer_from r (prev_after p s n) (drop n s)"
  by (subst finditer_from.simps) simp

lemma standalone_Cons_nonword:
  "\<not> is_word c \<Longrightarrow> standalone_digit_runs (c # cs) = standalone_digit_runs cs"
  by (simp add: standalone_digit_runs_def)

lemma standalone_Cons_word:
  "is_word c \<Longrightarrow> standalone_digit_runs (c # cs) =
     (if account_like (c # takeWhile is_word cs) then [c # takeWhile is_word cs] else []) @
     standalone_digit_runs (dropWhile is_word cs)"
  by (simp add: standalone_digit_runs_def account_like_def)

lemma dropWhile_twice: "dropWhile P (dropWhile P xs) = dropWhile P xs"
  by (induction xs) auto

lemma finditer_account_from:
  "finditer_from ACCOUNT_REGEX p s =
     standalone_digit_runs
       (if (case p of None \<Rightarrow> False | Some c \<Rightarrow> is_word c) then dropWhile is_word s else s)"
proof (induction s arbitrary: p rule: length_induct)
  case (1 s)
  note IH = 1 [rule_format]
  show ?case
  proof (cases s)
    case Nil
    have "rx_match ACCOUNT_REGEX p [] = []"
      by (simp add: account_match account_like_def)
    then have "finditer_from ACCOUNT_REGEX p [] = []" by (rule finditer_nomatch_Nil)
    then show ?thesis using Nil by (simp add: standalone_digit_runs_def)
  next
    case (Cons c cs)
    let ?pw = "case p of None \<Rightarrow> False | Some c \<Rightarrow> is_word c"
    let ?W = "c # takeWhile is_word cs"
    let ?R = "dropWhile is_word cs"
    have bnd: "at_boundary p (c # cs) \<longleftrightarrow> (?pw \<noteq> is_word c)"
      by (simp add: at_boundary_def)
    have step: "finditer_from ACCOUNT_REGEX (Some c) cs =
                  standalone_digit_runs (if is_word c then ?R else cs)"
      using IH [of cs "Some c"] Cons by simp
    show ?thesis
    proof (cases "is_word c")
      case False
      then have "takeWhile is_word (c # cs) = []" by simp
      then have "rx_match ACCOUNT_REGEX p (c # cs) = []"
        by (simp add: account_match account_like_def)
      then have "finditer_from ACCOUNT_REGEX p (c # cs) = standalone_digit_runs cs"
        using step False by (simp add: finditer_nomatch_Cons)
      then show ?thesis using Cons False by (simp add: standalone_Cons_nonword)
    next
      case True
      then have W: "takeWhile is_word (c # cs) = ?W" by simp
      show ?thesis
      proof (cases "?pw")
        case pw: True
        then have "rx_match ACCOUNT_REGEX p (c # cs) = []"
          using bnd True by (simp add: account_match)
        then have "finditer_from ACCOUNT_REGEX p (c # cs) = standalone_digit_runs ?R"
          using step True by (simp add: finditer_nomatch_Cons)
        then show ?thesis using Cons True pw by simp
      next
        case pw: False
        then have b: "at_boundary p (c # cs)" using bnd True by simp
        show ?thesis
        proof (cases "account_like ?W")
          case good: True
          have m: "rx_match ACCOUNT_REGEX p (c # cs) = [length ?W]"
            using b good by (simp only: account_match W) simp
          have tk: "take (length ?W) (c # cs) = ?W"
            by (metis W append_eq_conv_conj takeWhile_dropWhile_id)
          have dr: "drop (length ?W) (c # cs) = ?R"
            using True by (metis W append_eq_conv_conj takeWhile_dropWhile_id dropWhile.simps(2))
          have "last ?W \<in> set ?W" by (rule last_in_set) simp
          then have lw: "is_word (last ?W)" using True by (auto dest: set_takeWhileD)
          have pa: "prev_after p (c # cs) (length ?W) = Some (last ?W)"
            unfolding prev_after_def tk by simp
          have "length ?R < length s" using Cons by (simp add: less_Suc_eq_le length_dropWhile_le)
          from IH [OF this, of "Some (last ?W)"] lw
          have r: "finditer_from ACCOUNT_REGEX (Some (last ?W)) ?R = standalone_digit_runs ?R"
            by (simp add: dropWhile_twice)
          have "finditer_from ACCOUNT_REGEX p (c # cs) =
                  take (length ?W) (c # cs) #
                  finditer_from ACCOUNT_REGEX (prev_after p (c # cs) (length ?W))
                    (drop (length ?W) (c # cs))"
            using m by (rule finditer_match) simp_all
          then have "finditer_from ACCOUNT_REGEX p (c # cs) = ?W # standalone_digit_runs ?R"
            unfolding tk dr pa r .
          then show ?thesis using Cons True pw good by (simp add: standalone_Cons_word)
        next
          case bad: False
          then have "rx_match ACCOUNT_REGEX p (c # cs) = []"
            by (simp only: account_match W) simp
          then have "finditer_from ACCOUNT_REGEX p (c # cs) = standalone_digit_runs ?R"
            using step True by (simp add: finditer_nomatch_Cons)
          then show ?thesis using Cons True pw bad by (simp add: standalone_Cons_word)
        qed
      qed
    qed
  qed
qed

lemma finditer_account: "re_finditer ACCOUNT_REGEX s = standalone_digit_runs s"
  unfolding re_finditer_def finditer_account_from by simp

lemma word_runs_delimited:
  "w \<in> set (word_runs s) \<Longrightarrow>
     w \<noteq> [] \<and> list_all is_word w \<and>
     (\<exists>pre post. s = pre @ w @ post \<and> (pre = [] \<or> \<not> is_word (last pre)) \<and>
                 (post = [] \<or> \<not> is_word (hd post)))"
proof (induction s arbitrary: w rule: word_runs.induct)
  case 1
  then show ?case by simp
next
  case (2 c cs)
  show ?case
  proof (cases "is_word c")
    case False
    then have "w \<in> set (word_runs cs)" using "2.prems" by simp
    from "2.IH"(2) [OF False this] obtain pre post where
      a: "w \<noteq> []" "list_all is_word w" "cs = pre @ w @ post"
         "pre = [] \<or> \<not> is_word (last pre)" "post = [] \<or> \<not> is_word (hd post)"
      by blast
    have "c # cs = (c # pre) @ w @ post" using a(3) by simp
    moreover have "c # pre = [] \<or> \<not> is_word (last (c # pre))" using a(4) False by auto
    ultimately show ?thesis using a(1,2,5) by blast
  next
    case True
    let ?W = "c # takeWhile is_word cs"
    let ?R = "dropWhile is_word cs"
    from "2.prems" True consider "w = ?W" | "w \<in> set (word_runs ?R)" by auto
    then show ?thesis
    proof cases
      case 1
      have "list_all is_word ?W" using True by (auto simp: list_all_iff dest: set_takeWhileD)
      moreover have "c # cs = [] @ ?W @ ?R" by simp
      moreover have "?R = [] \<or> \<not> is_word (hd ?R)" by (metis hd_dropWhile)
      ultimately show ?thesis unfolding 1 by blast
    next
      case 2
      from "2.IH"(1) [OF True this] obtain pre post where
        a: "w \<noteq> []" "list_all is_word w" "?R = pre @ w @ post"
           "pre = [] \<or> \<not> is_word (last pre)" "post = [] \<or> \<not> is_word (hd post)"
        by blast
      have "pre \<noteq> []"
      proof
        assume "pre = []"
        then have "hd ?R = hd w" and "?R \<noteq> []" using a(1,3) by auto
        moreover have "is_word (hd w)" using a(1,2) by (cases w) auto
        ultimately show False by (metis hd_dropWhile)
      qed
      then have "\<not> is_word (last (?W @ pre))" using a(4) by simp
      moreover have "c # cs = (?W @ pre) @ w @ post"
        using a(3) by (metis append_Cons append_assoc takeWhile_dropWhile_id)
      ultimately show ?thesis using a(1,2,5) by blast
    qed
  qed
qed

lemma standalone_run_props:
  assumes "w \<in> set (standalone_digit_runs s)"
  shows "list_all is_digit w" and "9 \<le> length w" and "length w \<le> 18"
    and "\<exists>pre post. s = pre @ w @ post \<and> (pre = [] \<or> \<not> is_word (last pre)) \<and>
                     (post = [] \<or> \<not> is_word (hd post))"
  using assms word_runs_delimited [of w s] by (auto simp: standalone_digit_runs_def)

lemma aadhaar_digits_of_case:
  "aadhaar_digits_of a = (case a of None \<Rightarrow> [] | Some m \<Rightarrow> digits_only m)"
  by (auto simp: aadhaar_digits_of_def digits_only_def split: option.splits)

lemma find_only_other:
  assumes "e \<in> set xs" and "set xs \<subseteq> {e, ad}" and "length e \<noteq> 12" and "length ad = 12"
  shows "find (\<lambda>d. \<not> (d = ad \<and> length d = 12)) xs = Some e"
  using assms(1,2)
proof (induction xs)
  case Nil
  then show ?case by simp
next
  case (Cons x xs)
  show ?case
  proof (cases "x = e")
    case True
    then show ?thesis using assms(3) by auto
  next
    case False
    then have x: "x = ad" and "e \<in> set xs" and "set xs \<subseteq> {e, ad}" using Cons.prems by auto
    then have "find (\<lambda>d. \<not> (d = ad \<and> length d = 12)) xs = Some e"
      using Cons.IH by blast
    then show ?thesis using x assms(4) by simp
  qed
qed

section \<open>The shapes of phone and Aadhaar matches\<close>

lemma seq_split:
  assumes "n \<in> set (rx_match (Seq r1 r2) p s)"
  shows "\<exists>n1 n2. n = n1 + n2 \<and> n1 \<in> set (rx_match r1 p s) \<and>
           n2 \<in> set (rx_match r2 (prev_after p s n1) (drop n1 s)) \<and>
           take n s = take n1 s @ take n2 (drop n1 s) \<and> drop n s = drop n2 (drop n1 s)"
proof -
  obtain n1 n2 where a: "n = n1 + n2" "n1 \<in> set (rx_match r1 p s)"
      "n2 \<in> set (rx_match r2 (prev_after p s n1) (drop n1 s))"
    using assms unfolding rx_match_Seq_iff by blast
  have "take n s = take n1 s @ take n2 (drop n1 s)" unfolding a(1) by (rule take_add)
  moreover have "drop n s = drop n2 (drop n1 s)" unfolding a(1) by (simp add: add.commute)
  ultimately show ?thesis using a by blast
qed

lemma exact_digits:
  assumes "n \<in> set (rx_match (Many is_digit k (Some k)) p s)"
  shows "n = k \<and> length (take k s) = k \<and> list_all is_digit (take k s)"
proof -
  have a: "n = k" and b: "k \<le> length (takeWhile is_digit s)"
    using assms unfolding rx_match_Many_iff by auto
  have "k \<le> length s" using b by (rule takeWhile_le_length)
  then show ?thesis using a b by (simp add: takeWhile_all)
qed

lemma opt_set:
  assumes "n \<in> set (rx_match (Opt (Set P)) p s)"
  shows "take n s = [] \<or> (\<exists>c. P c \<and> take n s = [c])"
proof -
  from assms consider "n = 0" | "n = 1" "s \<noteq> []" "P (hd s)"
    unfolding rx_match_Opt_iff rx_match_Set_iff by blast
  then show ?thesis
  proof cases
    case 1
    then show ?thesis by simp
  next
    case 2
    then have "take n s = [hd s]" by (cases s) simp_all
    then show ?thesis using 2 by blast
  qed
qed

lemma phone_number_part:
  assumes "n \<in> set (rx_match (Seq (Set (\<lambda>c. c \<in> set ''6789'')) (Many is_digit 9 (Some 9))) p s)"
  shows "n = 10 \<and> length (take 10 s) = 10 \<and> list_all is_digit (take 10 s) \<and>
         hd (take 10 s) \<in> set ''6789''"
proof -
  from seq_split [OF assms] obtain n1 n2 where
    a: "n = n1 + n2" "n1 \<in> set (rx_match (Set (\<lambda>c. c \<in> set ''6789'')) p s)"
       "n2 \<in> set (rx_match (Many is_digit 9 (Some 9)) (prev_after p s n1) (drop n1 s))"
    by blast
  from a(2) have n1: "n1 = 1" and s: "s \<noteq> []" and h: "hd s \<in> set ''6789''"
    unfolding rx_match_Set_iff by auto
  from exact_digits [OF a(3)] have n2: "n2 = 9" and l: "length (take 9 (drop 1 s)) = 9"
    and d: "list_all is_digit (take 9 (drop 1 s))" unfolding n1 by auto
  obtain c cs where cs: "s = c # cs" using s by (cases s) auto
  have hd_digit: "is_digit c" using h cs by (auto simp: is_digit_def code_def Let_def)
  have t: "take 10 s = c # take 9 cs" using cs by simp
  have "length (take 9 cs) = 9" and "list_all is_digit (take 9 cs)" using l d cs by simp_all
  then show ?thesis using a(1) n1 n2 t hd_digit h cs by simp
qed

lemma phone_prefix_part:
  assumes "n \<in> set (rx_match (Opt (Seq (Lit ''+91'')
              (Opt (Set (\<lambda>c. c = CHR ''-'' \<or> is_space c))))) p s)"
  shows "take n s = [] \<or> take n s = ''+91'' \<or>
         (\<exists>c. (c = CHR ''-'' \<or> is_space c) \<and> take n s = ''+91'' @ [c])"
proof -
  from assms consider "n = 0"
    | "n \<in> set (rx_match (Seq (Lit ''+91'') (Opt (Set (\<lambda>c. c = CHR ''-'' \<or> is_space c)))) p s)"
    unfolding rx_match_Opt_iff by blast
  then show ?thesis
  proof cases
    case 1
    then show ?thesis by simp
  next
    case 2
    from seq_split [OF 2] obtain n1 n2 where
      a: "n1 \<in> set (rx_match (Lit ''+91'') p s)"
         "n2 \<in> set (rx_match (Opt (Set (\<lambda>c. c = CHR ''-'' \<or> is_space c)))
                   (prev_after p s n1) (drop n1 s))"
         "take n s = take n1 s @ take n2 (drop n1 s)"
      by blast
    from a(1) have "take n1 s = ''+91''" unfolding rx_match_Lit_iff by auto
    moreover from opt_set [OF a(2)]
    have "take n2 (drop n1 s) = [] \<or>
          (\<exists>c. (c = CHR ''-'' \<or> is_space c) \<and> take n2 (drop n1 s) = [c])" .
    ultimately show ?thesis using a(3) by auto
  qed
qed

lemma phone_match_shape:
  assumes "n \<in> set (rx_match PHONE_REGEX p s)"
  shows "\<exists>pre ten. take n s = pre @ ten \<and>
           (pre = [] \<or> pre = ''+91'' \<or> (\<exists>c. (c = CHR ''-'' \<or> is_space c) \<and> pre = ''+91'' @ [c])) \<and>
           length ten = 10 \<and> list_all is_digit ten \<and> hd ten \<in> set ''6789''"
proof -
  from seq_split [OF assms [unfolded PHONE_REGEX_def]] obtain n1 n2 where
    a: "n1 \<in> set (rx_match (Opt (Seq (Lit ''+91'')
              (Opt (Set (\<lambda>c. c = CHR ''-'' \<or> is_space c))))) p s)"
       "n2 \<in> set (rx_match (Seq (Set (\<lambda>c. c \<in> set ''6789'')) (Many is_digit 9 (Some 9)))
                 (prev_after p s n1) (drop n1 s))"
       "take n s = take n1 s @ take n2 (drop n1 s)"
    by blast
  from phone_number_part [OF a(2)] have
    b: "n2 = 10" "length (take 10 (drop n1 s)) = 10" "list_all is_digit (take 10 (drop n1 s))"
       "hd (take 10 (drop n1 s)) \<in> set ''6789''"
    by auto
  from phone_prefix_part [OF a(1)] have
    c: "take n1 s = [] \<or> take n1 s = ''+91'' \<or>
         (\<exists>c. (c = CHR ''-'' \<or> is_space c) \<and> take n1 s = ''+91'' @ [c])" .
  have "take n s = take n1 s @ take 10 (drop n1 s)" using a(3) b(1) by simp
  then show ?thesis using b(2,3,4) c by blast
qed

lemma phone_normalized:
  assumes "pre = [] \<or> pre = ''+91'' \<or> (\<exists>c. (c = CHR ''-'' \<or> is_space c) \<and> pre = ''+91'' @ [c])"
    and "length ten = 10" and "list_all is_digit ten"
  shows "last10 (digits_only (pre @ ten)) = ten"
proof -
  have t: "digits_only ten = ten" using assms(3) by (simp add: digits_only_def list_all_iff)
  have nd: "\<not> is_digit c" if "c = CHR ''-'' \<or> is_space c" for c
    using that space_not_digit by (auto simp: is_digit_def code_def Let_def)
  have p91: "digits_only ''+91'' = ''91''" by (simp add: digits_only_def is_digit_def code_def)
  from assms(1) consider "pre = []" | "pre = ''+91''"
    | c where "c = CHR ''-'' \<or> is_space c" "pre = ''+91'' @ [c]" by blast
  then have "digits_only pre = [] \<or> digits_only pre = ''91''"
  proof cases
    case 1
    then show ?thesis by (simp add: digits_only_def)
  next
    case 2
    then show ?thesis using p91 by simp
  next
    case 3
    then have "digits_only pre = digits_only ''+91'' @ digits_only [c]"
      by (simp add: digits_only_def)
    also have "digits_only [c] = []" using nd [OF 3(1)] by (simp add: digits_only_def)
    finally show ?thesis using p91 by simp
  qed
  then have "digits_only (pre @ ten) = ten \<or> digits_only (pre @ ten) = ''91'' @ ten"
    using t by (auto simp: digits_only_def)
  then show ?thesis using assms(2) by (auto simp: last10_def)
qed

lemma four_digits_then_boundary:
  assumes "n \<in> set (rx_match (Seq (Many is_digit 4 (Some 4)) WordB) p s)"
  shows "n = 4 \<and> length (take 4 s) = 4 \<and> list_all is_digit (take 4 s) \<and>
         (drop 4 s = [] \<or> \<not> is_word (hd (drop 4 s)))"
proof -
  from seq_split [OF assms] obtain n1 n2 where
    a: "n = n1 + n2" "n1 \<in> set (rx_match (Many is_digit 4 (Some 4)) p s)"
       "n2 \<in> set (rx_match WordB (prev_after p s n1) (drop n1 s))"
    by blast
  from exact_digits [OF a(2)] have
    b: "n1 = 4" "length (take 4 s) = 4" "list_all is_digit (take 4 s)" by auto
  from a(3) have c: "n2 = 0" "at_boundary (prev_after p s 4) (drop 4 s)"
    unfolding rx_match_WordB_iff b(1) by auto
  have ne: "take 4 s \<noteq> []" using b(2) by auto
  then have "last (take 4 s) \<in> set (take 4 s)" by (rule last_in_set)
  then have w: "is_word (last (take 4 s))"
    using b(3) by (auto simp: list_all_iff dest: digit_is_word)
  have "prev_after p s 4 = Some (last (take 4 s))" using ne by (simp add: prev_after_def)
  then have "drop 4 s = [] \<or> \<not> is_word (hd (drop 4 s))"
    using c(2) at_boundary_end_word [OF w, of "drop 4 s"] by simp
  then show ?thesis using a(1) b c(1) by simp
qed

lemma aadhaar_match_shape:
  assumes "n \<in> set (rx_match AADHAAR_REGEX p s)"
  shows "\<exists>g1 s1 g2 s2 g3.
           take n s = g1 @ s1 @ g2 @ s2 @ g3 \<and>
           length g1 = 4 \<and> list_all is_digit g1 \<and>
           length g2 = 4 \<and> list_all is_digit g2 \<and>
           length g3 = 4 \<and> list_all is_digit g3 \<and>
           (s1 = [] \<or> (\<exists>c. is_space c \<and> s1 = [c])) \<and>
           (s2 = [] \<or> (\<exists>c. is_space c \<and> s2 = [c])) \<and>
           at_boundary p s \<and> (drop n s = [] \<or> \<not> is_word (hd (drop n s)))"
proof -
  let ?G = "Many is_digit 4 (Some 4)"
  let ?O = "Opt (Set is_space)"
  have h: "rx_match AADHAAR_REGEX p s =
             (if at_boundary p s
              then rx_match (Seq ?G (Seq ?O (Seq ?G (Seq ?O (Seq ?G WordB))))) p s else [])"
    unfolding AADHAAR_REGEX_def by (rule wordb_seq)
  have bs: "at_boundary p s"
  proof (rule ccontr)
    assume "\<not> at_boundary p s"
    then have "rx_match AADHAAR_REGEX p s = []" unfolding h by (simp only: if_False)
    with assms show False by simp
  qed
  have m1: "n \<in> set (rx_match (Seq ?G (Seq ?O (Seq ?G (Seq ?O (Seq ?G WordB))))) p s)"
    using assms unfolding h using bs by (simp only: if_True)
  from seq_split [OF m1] obtain a1 n1 where
    1: "a1 \<in> set (rx_match ?G p s)"
       "n1 \<in> set (rx_match (Seq ?O (Seq ?G (Seq ?O (Seq ?G WordB))))
                  (prev_after p s a1) (drop a1 s))"
       "take n s = take a1 s @ take n1 (drop a1 s)" "drop n s = drop n1 (drop a1 s)"
    by blast
  from exact_digits [OF 1(1)] have
    g1: "a1 = 4" "length (take 4 s) = 4" "list_all is_digit (take 4 s)" by auto
  let ?t1 = "drop a1 s"
  from seq_split [OF 1(2)] obtain k1 n2 where
    2: "k1 \<in> set (rx_match ?O (prev_after p s a1) ?t1)"
       "n2 \<in> set (rx_match (Seq ?G (Seq ?O (Seq ?G WordB)))
                  (prev_after (prev_after p s a1) ?t1 k1) (drop k1 ?t1))"
       "take n1 ?t1 = take k1 ?t1 @ take n2 (drop k1 ?t1)"
       "drop n1 ?t1 = drop n2 (drop k1 ?t1)"
    by blast
  from opt_set [OF 2(1)] have
    s1: "take k1 ?t1 = [] \<or> (\<exists>c. is_space c \<and> take k1 ?t1 = [c])" .
  let ?t2 = "drop k1 ?t1"
  from seq_split [OF 2(2)] obtain a2 n3 where
    3: "a2 \<in> set (rx_match ?G (prev_after (prev_after p s a1) ?t1 k1) ?t2)"
       "n3 \<in> set (rx_match (Seq ?O (Seq ?G WordB))
                  (prev_after (prev_after (prev_after p s a1) ?t1 k1) ?t2 a2) (drop a2 ?t2))"
       "take n2 ?t2 = take a2 ?t2 @ take n3 (drop a2 ?t2)"
       "drop n2 ?t2 = drop n3 (drop a2 ?t2)"
    by blast
  from exact_digits [OF 3(1)] have
    g2: "a2 = 4" "length (take 4 ?t2) = 4" "list_all is_digit (take 4 ?t2)" by auto
  let ?t3 = "drop a2 ?t2"
  from seq_split [OF 3(2)] obtain k2 n4 where
    4: "k2 \<in> set (rx_match ?O
                  (prev_after (prev_after (prev_after p s a1) ?t1 k1) ?t2 a2) ?t3)"
       "n4 \<in> set (rx_match (Seq ?G WordB)
                  (prev_after (prev_after (prev_after (prev_after p s a1) ?t1 k1) ?t2 a2) ?t3 k2)
                  (drop k2 ?t3))"
       "take n3 ?t3 = take k2 ?t3 @ take n4 (drop k2 ?t3)"
       "drop n3 ?t3 = drop n4 (drop k2 ?t3)"
    by blast
  from opt_set [OF 4(1)] have
    s2: "take k2 ?t3 = [] \<or> (\<exists>c. is_space c \<and> take k2 ?t3 = [c])" .
  let ?t4 = "drop k2 ?t3"
  from four_digits_then_boundary [OF 4(2)] have
    g3: "n4 = 4" "length (take 4 ?t4) = 4" "list_all is_digit (take 4 ?t4)"
        "drop 4 ?t4 = [] \<or> \<not> is_word (hd (drop 4 ?t4))"
    by auto
  have tk: "take n s = take 4 s @ take k1 ?t1 @ take 4 ?t2 @ take k2 ?t3 @ take 4 ?t4"
    using 1(3) 2(3) 3(3) 4(3) g1(1) g2(1) g3(1) by simp
  have dr: "drop n s = drop 4 ?t4"
    using 1(4) 2(4) 3(4) 4(4) g3(1) by simp
  have "take n s = take 4 s @ take k1 ?t1 @ take 4 ?t2 @ take k2 ?t3 @ take 4 ?t4 \<and>
           length (take 4 s) = 4 \<and> list_all is_digit (take 4 s) \<and>
           length (take 4 ?t2) = 4 \<and> list_all is_digit (take 4 ?t2) \<and>
           length (take 4 ?t4) = 4 \<and> list_all is_digit (take 4 ?t4) \<and>
           (take k1 ?t1 = [] \<or> (\<exists>c. is_space c \<and> take k1 ?t1 = [c])) \<and>
           (take k2 ?t3 = [] \<or> (\<exists>c. is_space c \<and> take k2 ?t3 = [c])) \<and>
           at_boundary p s \<and> (drop n s = [] \<or> \<not> is_word (hd (drop n s)))"
    using tk g1(2,3) g2(2,3) g3(2,3) s1 s2 bs g3(4) unfolding dr by (intro conjI)
  then show ?thesis by (intro exI)
qed

lemma search_found:
  assumes "re_search r s = Some m"
  shows "\<exists>pre post n. s = pre @ m @ post \<and> m = take n (m @ post) \<and>
           n \<in> set (rx_match r (if pre = [] then None else Some (last pre)) (m @ post)) \<and>
           drop n (m @ post) = post"
proof -
  from search_from_Some [OF assms [unfolded re_search_def]] obtain pre post n where
    a: "s = pre @ post" "n \<in> set (rx_match r (prev_after None s (length pre)) post)"
       "m = take n post"
    by blast
  have p: "prev_after None s (length pre) = (if pre = [] then None else Some (last pre))"
    unfolding a(1) by (rule prev_after_prefix)
  have e: "post = m @ drop n post" unfolding a(3) by simp
  have "s = pre @ m @ drop n post" using a(1) e by simp
  moreover have "m = take n (m @ drop n post)" using a(3) e by simp
  moreover have "n \<in> set (rx_match r (if pre = [] then None else Some (last pre))
                             (m @ drop n post))"
    using a(2) p e by simp
  moreover have "drop n (m @ drop n post) = drop n post" using e by simp
  ultimately show ?thesis by blast
qed

lemma phone_field_shape:
  assumes "re_search PHONE_REGEX s = Some m"
  shows "\<exists>pre ten. m = pre @ ten \<and>
           (pre = [] \<or> pre = ''+91'' \<or> (\<exists>c. (c = CHR ''-'' \<or> is_space c) \<and> pre = ''+91'' @ [c])) \<and>
           length ten = 10 \<and> list_all is_digit ten \<and> hd ten \<in> set ''6789'' \<and>
           phone_of s = Some ten \<and> contains m s"
proof -
  from search_found [OF assms] obtain p0 post n where
    a: "s = p0 @ m @ post" "m = take n (m @ post)"
       "n \<in> set (rx_match PHONE_REGEX (if p0 = [] then None else Some (last p0)) (m @ post))"
    by blast
  from phone_match_shape [OF a(3)] a(2) obtain pre ten where
    b: "m = pre @ ten"
       "pre = [] \<or> pre = ''+91'' \<or> (\<exists>c. (c = CHR ''-'' \<or> is_space c) \<and> pre = ''+91'' @ [c])"
       "length ten = 10" "list_all is_digit ten" "hd ten \<in> set ''6789''"
    by auto
  have "last10 (digits_only m) = ten" unfolding b(1) using b(2,3,4) by (rule phone_normalized)
  then have c: "phone_of s = Some ten" using assms by (simp add: phone_of_def)
  have d: "contains m s" unfolding contains_iff using a(1) by blast
  from b c d show ?thesis by blast
qed

lemma aadhaar_field_shape:
  assumes "re_search AADHAAR_REGEX s = Some m"
  shows "(\<exists>g1 s1 g2 s2 g3.
           m = g1 @ s1 @ g2 @ s2 @ g3 \<and>
           length g1 = 4 \<and> list_all is_digit g1 \<and>
           length g2 = 4 \<and> list_all is_digit g2 \<and>
           length g3 = 4 \<and> list_all is_digit g3 \<and>
           (s1 = [] \<or> (\<exists>c. is_space c \<and> s1 = [c])) \<and>
           (s2 = [] \<or> (\<exists>c. is_space c \<and> s2 = [c]))) \<and>
         (\<exists>pre post. s = pre @ m @ post \<and> (pre = [] \<or> \<not> is_word (last pre)) \<and>
                     (post = [] \<or> \<not> is_word (hd post)))"
proof -
  from search_found [OF assms] obtain pre post n where
    a: "s = pre @ m @ post" "m = take n (m @ post)"
       "n \<in> set (rx_match AADHAAR_REGEX (if pre = [] then None else Some (last pre)) (m @ post))"
       "drop n (m @ post) = post"
    by blast
  from aadhaar_match_shape [OF a(3)] obtain g1 s1 g2 s2 g3 where
    b: "take n (m @ post) = g1 @ s1 @ g2 @ s2 @ g3"
       "length g1 = 4" "list_all is_digit g1"
       "length g2 = 4" "list_all is_digit g2"
       "length g3 = 4" "list_all is_digit g3"
       "s1 = [] \<or> (\<exists>c. is_space c \<and> s1 = [c])"
       "s2 = [] \<or> (\<exists>c. is_space c \<and> s2 = [c])"
       "at_boundary (if pre = [] then None else Some (last pre)) (m @ post)"
       "drop n (m @ post) = [] \<or> \<not> is_word (hd (drop n (m @ post)))"
    by blast
  have m: "m = g1 @ s1 @ g2 @ s2 @ g3" using a(2) b(1) by simp
  obtain d ds where g1: "g1 = d # ds" using b(2) by (cases g1) auto
  then have "is_word d" using b(3) by (simp add: digit_is_word)
  then have "m @ post \<noteq> []" and "is_word (hd (m @ post))" using m g1 by simp_all
  then have start: "pre = [] \<or> \<not> is_word (last pre)"
    using b(10) at_boundary_start_word [of "m @ post" pre] by blast
  have fin: "post = [] \<or> \<not> is_word (hd post)" using b(11) unfolding a(4) .
  have shape: "\<exists>g1 s1 g2 s2 g3.
           m = g1 @ s1 @ g2 @ s2 @ g3 \<and>
           length g1 = 4 \<and> list_all is_digit g1 \<and>
           length g2 = 4 \<and> list_all is_digit g2 \<and>
           length g3 = 4 \<and> list_all is_digit g3 \<and>
           (s1 = [] \<or> (\<exists>c. is_space c \<and> s1 = [c])) \<and>
           (s2 = [] \<or> (\<exists>c. is_space c \<and> s2 = [c]))"
    using m b(2-9) by blast
  have place: "\<exists>pre post. s = pre @ m @ post \<and> (pre = [] \<or> \<not> is_word (last pre)) \<and>
                     (post = [] \<or> \<not> is_word (hd post))"
    using a(1) start fin by blast
  from shape place show ?thesis by (rule conjI)
qed

section \<open>Search returns the leftmost occurrence\<close>

lemma pos_prev_Cons: "pos_prev p (c # pre) = pos_prev (Some c) pre"
  by (simp add: pos_prev_def)

lemma search_from_None:
  "search_from r p s = None \<longleftrightarrow>
     (\<forall>pre post. s = pre @ post \<longrightarrow> rx_match r (pos_prev p pre) post = [])"
proof (induction s arbitrary: p)
  case Nil
  show ?case by (auto simp: pos_prev_def split: list.splits)
next
  case (Cons c cs)
  have "search_from r p (c # cs) = None \<longleftrightarrow>
          rx_match r p (c # cs) = [] \<and> search_from r (Some c) cs = None"
    by (auto split: list.splits)
  also have "\<dots> \<longleftrightarrow> rx_match r p (c # cs) = [] \<and>
          (\<forall>pre post. cs = pre @ post \<longrightarrow> rx_match r (pos_prev (Some c) pre) post = [])"
    by (simp only: Cons.IH)
  also have "\<dots> \<longleftrightarrow>
          (\<forall>pre post. c # cs = pre @ post \<longrightarrow> rx_match r (pos_prev p pre) post = [])"
  proof
    assume a: "rx_match r p (c # cs) = [] \<and>
          (\<forall>pre post. cs = pre @ post \<longrightarrow> rx_match r (pos_prev (Some c) pre) post = [])"
    show "\<forall>pre post. c # cs = pre @ post \<longrightarrow> rx_match r (pos_prev p pre) post = []"
    proof (intro allI impI)
      fix pre post assume e: "c # cs = pre @ post"
      show "rx_match r (pos_prev p pre) post = []"
      proof (cases pre)
        case Nil
        then show ?thesis using a e by (simp add: pos_prev_def)
      next
        case (Cons d pre')
        then have "d = c" and "cs = pre' @ post" using e by simp_all
        then show ?thesis using a Cons by (simp add: pos_prev_Cons)
      qed
    qed
  next
    assume b: "\<forall>pre post. c # cs = pre @ post \<longrightarrow> rx_match r (pos_prev p pre) post = []"
    have "rx_match r p (c # cs) = []" using b [rule_format, of "[]" "c # cs"]
      by (simp add: pos_prev_def)
    moreover have "\<forall>pre post. cs = pre @ post \<longrightarrow> rx_match r (pos_prev (Some c) pre) post = []"
    proof (intro allI impI)
      fix pre post assume "cs = pre @ post"
      then have "c # cs = (c # pre) @ post" by simp
      from b [rule_format, OF this] show "rx_match r (pos_prev (Some c) pre) post = []"
        by (simp add: pos_prev_Cons)
    qed
    ultimately show "rx_match r p (c # cs) = [] \<and>
          (\<forall>pre post. cs = pre @ post \<longrightarrow> rx_match r (pos_prev (Some c) pre) post = [])"
      by (rule conjI)
  qed
  finally show ?case .
qed

lemma search_from_leftmost:
  "search_from r p s = Some m \<Longrightarrow>
     \<exists>pre post n ns. s = pre @ post \<and> rx_match r (pos_prev p pre) post = n # ns \<and>
        m = take n post \<and>
        (\<forall>pre' post'. s = pre' @ post' \<and> length pre' < length pre
           \<longrightarrow> rx_match r (pos_prev p pre') post' = [])"
proof (induction s arbitrary: p)
  case Nil
  then obtain n ns where a: "rx_match r p [] = n # ns" and m: "m = take n []"
    by (auto split: list.splits)
  have "[] = [] @ ([]::string) \<and> rx_match r (pos_prev p []) [] = n # ns \<and> m = take n [] \<and>
        (\<forall>pre' post'. [] = pre' @ post' \<and> length pre' < length ([]::string)
           \<longrightarrow> rx_match r (pos_prev p pre') post' = [])"
    using a m by (simp add: pos_prev_def)
  then show ?case by (intro exI)
next
  case (Cons c cs)
  show ?case
  proof (cases "rx_match r p (c # cs)")
    case Nil
    then have "search_from r (Some c) cs = Some m" using Cons.prems by simp
    from Cons.IH [OF this] obtain pre post n ns where
      a: "cs = pre @ post" and b: "rx_match r (pos_prev (Some c) pre) post = n # ns"
      and c: "m = take n post"
      and d: "\<forall>pre' post'. cs = pre' @ post' \<and> length pre' < length pre
           \<longrightarrow> rx_match r (pos_prev (Some c) pre') post' = []"
      by (elim exE conjE)
    have e: "\<forall>pre' post'. c # cs = pre' @ post' \<and> length pre' < length (c # pre)
           \<longrightarrow> rx_match r (pos_prev p pre') post' = []"
    proof (intro allI impI)
      fix pre' post' assume h: "c # cs = pre' @ post' \<and> length pre' < length (c # pre)"
      show "rx_match r (pos_prev p pre') post' = []"
      proof (cases pre')
        case Nil
        then show ?thesis using h \<open>rx_match r p (c # cs) = []\<close> by (simp add: pos_prev_def)
      next
        case (Cons d q)
        then have "cs = q @ post' \<and> length q < length pre" using h by simp
        from d [rule_format, OF this] show ?thesis using Cons h by (simp add: pos_prev_Cons)
      qed
    qed
    have "c # cs = (c # pre) @ post \<and> rx_match r (pos_prev p (c # pre)) post = n # ns \<and>
          m = take n post \<and>
          (\<forall>pre' post'. c # cs = pre' @ post' \<and> length pre' < length (c # pre)
             \<longrightarrow> rx_match r (pos_prev p pre') post' = [])"
      using a b c e by (simp add: pos_prev_Cons)
    then show ?thesis by (intro exI)
  next
    case (Cons n ns)
    then have m: "m = take n (c # cs)" using Cons.prems by simp
    have "c # cs = [] @ (c # cs) \<and> rx_match r (pos_prev p []) (c # cs) = n # ns \<and>
          m = take n (c # cs) \<and>
          (\<forall>pre' post'. c # cs = pre' @ post' \<and> length pre' < length ([]::string)
             \<longrightarrow> rx_match r (pos_prev p pre') post' = [])"
      using Cons m by (simp add: pos_prev_def)
    then show ?thesis by (intro exI)
  qed
qed

lemma search_characterised:
  assumes sound: "\<And>pre rest n ns. rx_match r (pos_prev None pre) rest = n # ns
                    \<Longrightarrow> occ pre (take n rest) (drop n rest)"
    and complete: "\<And>pre m post. occ pre m post \<Longrightarrow> rx_match r (pos_prev None pre) (m @ post) \<noteq> []"
    and unique: "\<And>pre m post m' post'. occ pre m post \<Longrightarrow> occ pre m' post'
                    \<Longrightarrow> m @ post = m' @ post' \<Longrightarrow> m = m'"
  shows "re_search r s = None \<longleftrightarrow> \<not> (\<exists>pre m post. s = pre @ m @ post \<and> occ pre m post)"
    and "re_search r s = Some m \<longleftrightarrow>
           (\<exists>pre post. s = pre @ m @ post \<and> occ pre m post \<and>
              (\<forall>pre' m' post'. s = pre' @ m' @ post' \<and> occ pre' m' post'
                 \<longrightarrow> length pre \<le> length pre'))"
proof -
  show none: "re_search r s = None \<longleftrightarrow> \<not> (\<exists>pre m post. s = pre @ m @ post \<and> occ pre m post)"
    for s
  proof
    assume n: "re_search r s = None"
    show "\<not> (\<exists>pre m post. s = pre @ m @ post \<and> occ pre m post)"
    proof
      assume "\<exists>pre m post. s = pre @ m @ post \<and> occ pre m post"
      then obtain pre m post where a: "s = pre @ (m @ post)" and b: "occ pre m post" by auto
      from n have "rx_match r (pos_prev None pre) (m @ post) = []"
        unfolding re_search_def search_from_None using a by blast
      with complete [OF b] show False by simp
    qed
  next
    assume no: "\<not> (\<exists>pre m post. s = pre @ m @ post \<and> occ pre m post)"
    have "\<forall>pre post. s = pre @ post \<longrightarrow> rx_match r (pos_prev None pre) post = []"
    proof (intro allI impI)
      fix pre post assume e: "s = pre @ post"
      show "rx_match r (pos_prev None pre) post = []"
      proof (cases "rx_match r (pos_prev None pre) post")
        case Nil
        then show ?thesis .
      next
        case (Cons n ns)
        from sound [OF this] have "occ pre (take n post) (drop n post)" .
        moreover have "s = pre @ take n post @ drop n post" using e by simp
        ultimately show ?thesis using no by blast
      qed
    qed
    then show "re_search r s = None" unfolding re_search_def search_from_None .
  qed
  have fwd: "\<exists>pre post. s = pre @ m @ post \<and> occ pre m post \<and>
              (\<forall>pre' m' post'. s = pre' @ m' @ post' \<and> occ pre' m' post'
                 \<longrightarrow> length pre \<le> length pre')"
    if h: "re_search r s = Some m" for m
  proof -
    from search_from_leftmost [OF h [unfolded re_search_def]] obtain pre rest n ns where
      a: "s = pre @ rest" and b: "rx_match r (pos_prev None pre) rest = n # ns"
      and c: "m = take n rest"
      and d: "\<forall>pre' post'. s = pre' @ post' \<and> length pre' < length pre
           \<longrightarrow> rx_match r (pos_prev None pre') post' = []"
      by (elim exE conjE)
    have o: "occ pre m (drop n rest)" using sound [OF b] c by simp
    have e: "s = pre @ m @ drop n rest" using a c by simp
    have l: "\<forall>pre' m' post'. s = pre' @ m' @ post' \<and> occ pre' m' post'
                 \<longrightarrow> length pre \<le> length pre'"
    proof (intro allI impI)
      fix pre' m' post' assume g: "s = pre' @ m' @ post' \<and> occ pre' m' post'"
      show "length pre \<le> length pre'"
      proof (rule ccontr)
        assume "\<not> length pre \<le> length pre'"
        then have "s = pre' @ (m' @ post') \<and> length pre' < length pre" using g by simp
        from d [rule_format, OF this] complete [of pre' m' post'] g show False by simp
      qed
    qed
    from e o l show ?thesis by blast
  qed
  show "re_search r s = Some m \<longleftrightarrow>
           (\<exists>pre post. s = pre @ m @ post \<and> occ pre m post \<and>
              (\<forall>pre' m' post'. s = pre' @ m' @ post' \<and> occ pre' m' post'
                 \<longrightarrow> length pre \<le> length pre'))"
  proof
    assume "re_search r s = Some m"
    then show "\<exists>pre post. s = pre @ m @ post \<and> occ pre m post \<and>
              (\<forall>pre' m' post'. s = pre' @ m' @ post' \<and> occ pre' m' post'
                 \<longrightarrow> length pre \<le> length pre')"
      by (rule fwd)
  next
    assume "\<exists>pre post. s = pre @ m @ post \<and> occ pre m post \<and>
              (\<forall>pre' m' post'. s = pre' @ m' @ post' \<and> occ pre' m' post'
                 \<longrightarrow> length pre \<le> length pre')"
    then obtain pre post where a: "s = pre @ m @ post" and b: "occ pre m post"
      and c: "\<forall>pre' m' post'. s = pre' @ m' @ post' \<and> occ pre' m' post'
                 \<longrightarrow> length pre \<le> length pre'"
      by (elim exE conjE)
    have "re_search r s \<noteq> None" using none [of s] a b by blast
    then obtain m0 where m0: "re_search r s = Some m0" by auto
    from fwd [OF m0] obtain pre0 post0 where a0: "s = pre0 @ m0 @ post0"
      and b0: "occ pre0 m0 post0"
      and c0: "\<forall>pre' m' post'. s = pre' @ m' @ post' \<and> occ pre' m' post'
                 \<longrightarrow> length pre0 \<le> length pre'"
      by (elim exE conjE)
    have "length pre \<le> length pre0" using c [rule_format, of pre0 m0 post0] a0 b0 by simp
    moreover have "length pre0 \<le> length pre" using c0 [rule_format, of pre m post] a b by simp
    ultimately have "length pre0 = length pre" by simp
    moreover have "pre0 @ (m0 @ post0) = pre @ (m @ post)" using a a0 by simp
    ultimately have p: "pre0 = pre" and q: "m0 @ post0 = m @ post" by simp_all
    have "m0 = m" using unique [OF b0 [unfolded p] b q] .
    then show "re_search r s = Some m" using m0 by simp
  qed
qed

lemma seq_intro:
  "n1 \<in> set (rx_match r1 p s) \<Longrightarrow> n2 \<in> set (rx_match r2 (prev_after p s n1) (drop n1 s))
     \<Longrightarrow> n1 + n2 \<in> set (rx_match (Seq r1 r2) p s)"
  unfolding rx_match_Seq_iff by blast

lemma digits_intro:
  assumes "length g = k" and "list_all is_digit g"
  shows "k \<in> set (rx_match (Many is_digit k (Some k)) p (g @ rest))"
proof -
  have "takeWhile is_digit (g @ rest) = g @ takeWhile is_digit rest"
    by (rule takeWhile_append2) (use assms(2) in \<open>simp add: list_all_iff\<close>)
  then have "k \<le> length (takeWhile is_digit (g @ rest))" using assms(1) by simp
  then show ?thesis unfolding rx_match_Many_iff by simp
qed

lemma phone_number_intro:
  assumes "length ten = 10" and "list_all is_digit ten" and "hd ten \<in> set ''6789''"
  shows "10 \<in> set (rx_match (Seq (Set (\<lambda>c. c \<in> set ''6789'')) (Many is_digit 9 (Some 9)))
                     p (ten @ rest))"
proof -
  obtain d ds where t: "ten = d # ds" using assms(1) by (cases ten) auto
  have a: "1 \<in> set (rx_match (Set (\<lambda>c. c \<in> set ''6789'')) p (ten @ rest))"
    unfolding rx_match_Set_iff using t assms(3) by simp
  have "length ds = 9" and "list_all is_digit ds" using t assms(1,2) by simp_all
  then have "9 \<in> set (rx_match (Many is_digit 9 (Some 9)) (prev_after p (ten @ rest) 1)
                        (ds @ rest))"
    by (rule digits_intro)
  then have b: "9 \<in> set (rx_match (Many is_digit 9 (Some 9)) (prev_after p (ten @ rest) 1)
                        (drop 1 (ten @ rest)))"
    using t by simp
  from seq_intro [OF a b] show ?thesis by simp
qed

lemma phone_prefix_intro:
  assumes "pre = [] \<or> pre = ''+91'' \<or> (\<exists>c. (c = CHR ''-'' \<or> is_space c) \<and> pre = ''+91'' @ [c])"
  shows "length pre \<in> set (rx_match (Opt (Seq (Lit ''+91'')
              (Opt (Set (\<lambda>c. c = CHR ''-'' \<or> is_space c))))) p (pre @ rest))"
proof -
  from assms consider "pre = []" | "pre = ''+91''"
    | c where "c = CHR ''-'' \<or> is_space c" "pre = ''+91'' @ [c]" by blast
  then show ?thesis
  proof cases
    case 1
    then show ?thesis unfolding rx_match_Opt_iff by simp
  next
    case 2
    have a: "3 \<in> set (rx_match (Lit ''+91'') p (pre @ rest))"
      unfolding rx_match_Lit_iff using 2 by simp
    have b: "0 \<in> set (rx_match (Opt (Set (\<lambda>c. c = CHR ''-'' \<or> is_space c)))
                       (prev_after p (pre @ rest) 3) (drop 3 (pre @ rest)))"
      unfolding rx_match_Opt_iff by simp
    from seq_intro [OF a b] show ?thesis unfolding rx_match_Opt_iff using 2 by simp
  next
    case 3
    have a: "3 \<in> set (rx_match (Lit ''+91'') p (pre @ rest))"
      unfolding rx_match_Lit_iff using 3 by simp
    have "drop 3 (pre @ rest) = c # rest" using 3 by simp
    then have b: "1 \<in> set (rx_match (Opt (Set (\<lambda>c. c = CHR ''-'' \<or> is_space c)))
                       (prev_after p (pre @ rest) 3) (drop 3 (pre @ rest)))"
      unfolding rx_match_Opt_iff rx_match_Set_iff using 3(1) by simp
    from seq_intro [OF a b] show ?thesis unfolding rx_match_Opt_iff using 3 by simp
  qed
qed

lemma phone_head_complete:
  assumes "phone_match_form m"
  shows "rx_match PHONE_REGEX p (m @ post) \<noteq> []"
proof -
  from assms obtain pre ten where m: "m = pre @ ten"
    and pre: "pre = [] \<or> pre = ''+91'' \<or> (\<exists>c. (c = CHR ''-'' \<or> is_space c) \<and> pre = ''+91'' @ [c])"
    and ten: "length ten = 10" "list_all is_digit ten" "hd ten \<in> set ''6789''"
    unfolding phone_match_form_def by blast
  have a: "length pre \<in> set (rx_match (Opt (Seq (Lit ''+91'')
              (Opt (Set (\<lambda>c. c = CHR ''-'' \<or> is_space c))))) p (pre @ (ten @ post)))"
    using pre by (rule phone_prefix_intro)
  have "10 \<in> set (rx_match (Seq (Set (\<lambda>c. c \<in> set ''6789'')) (Many is_digit 9 (Some 9)))
                     (prev_after p (pre @ (ten @ post)) (length pre)) (ten @ post))"
    using ten by (rule phone_number_intro)
  then have b: "10 \<in> set (rx_match (Seq (Set (\<lambda>c. c \<in> set ''6789'')) (Many is_digit 9 (Some 9)))
                     (prev_after p (pre @ (ten @ post)) (length pre))
                     (drop (length pre) (pre @ (ten @ post))))"
    by simp
  from seq_intro [OF a b]
  have "length pre + 10 \<in> set (rx_match PHONE_REGEX p (pre @ (ten @ post)))"
    unfolding PHONE_REGEX_def .
  then show ?thesis unfolding m by auto
qed

lemma phone_head_sound:
  assumes "rx_match PHONE_REGEX p s = n # ns"
  shows "phone_match_form (take n s)"
proof -
  have "n \<in> set (rx_match PHONE_REGEX p s)" using assms by simp
  from phone_match_shape [OF this] show ?thesis unfolding phone_match_form_def by blast
qed

lemma six_to_nine:
  assumes "d \<in> set ''6789''"
  shows "is_digit d" and "d \<noteq> CHR ''+''" and "d \<noteq> CHR ''-''" and "\<not> is_space d"
  using assms by (auto simp: is_digit_def is_space_def code_def Let_def)

lemma phone_form_unique:
  assumes "phone_match_form m" and "phone_match_form m'" and "m @ post = m' @ post'"
  shows "m = m'"
proof -
  from assms(1) obtain pre ten where m: "m = pre @ ten"
    and pre: "pre = [] \<or> pre = ''+91'' \<or> (\<exists>c. (c = CHR ''-'' \<or> is_space c) \<and> pre = ''+91'' @ [c])"
    and ten: "length ten = 10" "hd ten \<in> set ''6789''"
    unfolding phone_match_form_def by blast
  from assms(2) obtain pre' ten' where m': "m' = pre' @ ten'"
    and pre': "pre' = [] \<or> pre' = ''+91'' \<or>
               (\<exists>c. (c = CHR ''-'' \<or> is_space c) \<and> pre' = ''+91'' @ [c])"
    and ten': "length ten' = 10" "hd ten' \<in> set ''6789''"
    unfolding phone_match_form_def by blast
  obtain d ds where t: "ten = d # ds" using ten(1) by (cases ten) auto
  obtain d' ds' where t': "ten' = d' # ds'" using ten'(1) by (cases ten') auto
  have d: "d \<in> set ''6789''" and d': "d' \<in> set ''6789''" using ten(2) ten'(2) t t' by simp_all
  note dn = six_to_nine [OF d] and dn' = six_to_nine [OF d']
  have e: "pre @ d # ds @ post = pre' @ d' # ds' @ post'" using assms(3) m m' t t' by simp
  have "pre = pre'"
  proof -
    from pre consider (a) "pre = []" | (b) "pre = ''+91''"
      | (c) c where "c = CHR ''-'' \<or> is_space c" "pre = ''+91'' @ [c]" by blast
    then show ?thesis
    proof cases
      case a
      from pre' consider "pre' = []" | "pre' = ''+91''"
        | c' where "c' = CHR ''-'' \<or> is_space c'" "pre' = ''+91'' @ [c']" by blast
      then show ?thesis using a e dn by cases auto
    next
      case b
      from pre' consider "pre' = []" | "pre' = ''+91''"
        | c' where "c' = CHR ''-'' \<or> is_space c'" "pre' = ''+91'' @ [c']" by blast
      then show ?thesis using b e dn dn' by cases auto
    next
      case c
      from pre' consider "pre' = []" | "pre' = ''+91''"
        | c' where "c' = CHR ''-'' \<or> is_space c'" "pre' = ''+91'' @ [c']" by blast
      then show ?thesis using c e dn dn' by cases auto
    qed
  qed
  then have "ten @ post = ten' @ post'" using assms(3) m m' by simp
  then have "ten = ten'" using ten(1) ten'(1) by simp
  then show ?thesis using m m' \<open>pre = pre'\<close> by simp
qed

lemma phone_search_None:
  "re_search PHONE_REGEX s = None \<longleftrightarrow>
     \<not> (\<exists>pre m post. s = pre @ m @ post \<and> phone_match_form m)"
proof (rule search_characterised(1) [where occ = "\<lambda>pre m post. phone_match_form m"])
  fix pre rest n ns assume "rx_match PHONE_REGEX (pos_prev None pre) rest = n # ns"
  then show "phone_match_form (take n rest)" by (rule phone_head_sound)
next
  fix pre :: string and m post assume "phone_match_form m"
  then show "rx_match PHONE_REGEX (pos_prev None pre) (m @ post) \<noteq> []"
    by (rule phone_head_complete)
next
  fix m post m' post'
  assume "phone_match_form m" "phone_match_form m'" "m @ post = m' @ post'"
  then show "m = m'" by (rule phone_form_unique)
qed

lemma phone_search_Some:
  "re_search PHONE_REGEX s = Some m \<longleftrightarrow>
     (\<exists>pre post. s = pre @ m @ post \<and> phone_match_form m \<and>
        (\<forall>pre' m' post'. s = pre' @ m' @ post' \<and> phone_match_form m'
           \<longrightarrow> length pre \<le> length pre'))"
proof (rule search_characterised(2) [where occ = "\<lambda>pre m post. phone_match_form m"])
  fix pre rest n ns assume "rx_match PHONE_REGEX (pos_prev None pre) rest = n # ns"
  then show "phone_match_form (take n rest)" by (rule phone_head_sound)
next
  fix pre :: string and m post assume "phone_match_form m"
  then show "rx_match PHONE_REGEX (pos_prev None pre) (m @ post) \<noteq> []"
    by (rule phone_head_complete)
next
  fix m post m' post'
  assume "phone_match_form m" "phone_match_form m'" "m @ post = m' @ post'"
  then show "m = m'" by (rule phone_form_unique)
qed

lemma phone_form_normalized:
  assumes "phone_match_form m"
  shows "drop (length (filter is_digit m) - 10) (filter is_digit m) = drop (length m - 10) m"
    and "length (drop (length m - 10) m) = 10"
    and "list_all is_digit (drop (length m - 10) m)"
    and "hd (drop (length m - 10) m) \<in> set ''6789''"
proof -
  from assms obtain pre ten where m: "m = pre @ ten"
    and pre: "pre = [] \<or> pre = ''+91'' \<or> (\<exists>c. (c = CHR ''-'' \<or> is_space c) \<and> pre = ''+91'' @ [c])"
    and ten: "length ten = 10" "list_all is_digit ten" "hd ten \<in> set ''6789''"
    unfolding phone_match_form_def by blast
  have l: "drop (length m - 10) m = ten" using m ten(1) by simp
  have "last10 (digits_only (pre @ ten)) = ten" using pre ten(1,2) by (rule phone_normalized)
  then have "drop (length (filter is_digit m) - 10) (filter is_digit m) = ten"
    unfolding m last10_def digits_only_def .
  then show "drop (length (filter is_digit m) - 10) (filter is_digit m) = drop (length m - 10) m"
    using l by simp
  show "length (drop (length m - 10) m) = 10" unfolding l by (rule ten(1))
  show "list_all is_digit (drop (length m - 10) m)" unfolding l by (rule ten(2))
  show "hd (drop (length m - 10) m) \<in> set ''6789''" unfolding l by (rule ten(3))
qed

lemma gap_intro:
  assumes "s1 = [] \<or> (\<exists>c. is_space c \<and> s1 = [c])"
  shows "length s1 \<in> set (rx_match (Opt (Set is_space)) p (s1 @ rest))"
  using assms unfolding rx_match_Opt_iff rx_match_Set_iff by auto

lemma aadhaar_head_complete:
  assumes "aadhaar_match_form m" and "stands_alone pre post"
  shows "rx_match AADHAAR_REGEX (pos_prev None pre) (m @ post) \<noteq> []"
proof -
  let ?G = "Many is_digit 4 (Some 4)"
  let ?O = "Opt (Set is_space)"
  from assms(1) obtain g1 s1 g2 s2 g3 where m: "m = g1 @ s1 @ g2 @ s2 @ g3"
    and g1: "length g1 = 4" "list_all is_digit g1"
    and g2: "length g2 = 4" "list_all is_digit g2"
    and g3: "length g3 = 4" "list_all is_digit g3"
    and s1: "s1 = [] \<or> (\<exists>c. is_space c \<and> s1 = [c])"
    and s2: "s2 = [] \<or> (\<exists>c. is_space c \<and> s2 = [c])"
    unfolding aadhaar_match_form_def by blast
  have step: "length g + n \<in> set (rx_match (Seq ?G r) p (g @ rest))"
    if "length g = 4" "list_all is_digit g"
       "\<And>q. n \<in> set (rx_match r q rest)" for g n r p rest
  proof -
    have a: "4 \<in> set (rx_match ?G p (g @ rest))" using that(1,2) by (rule digits_intro)
    have "drop 4 (g @ rest) = rest" using that(1) by simp
    then have b: "n \<in> set (rx_match r (prev_after p (g @ rest) 4) (drop 4 (g @ rest)))"
      using that(3) by (simp only:)
    from seq_intro [OF a b] show ?thesis unfolding that(1) .
  qed
  have gap: "length s + n \<in> set (rx_match (Seq ?O r) p (s @ rest))"
    if "s = [] \<or> (\<exists>c. is_space c \<and> s = [c])"
       "\<And>q. n \<in> set (rx_match r q rest)" for s n r p rest
  proof -
    have a: "length s \<in> set (rx_match ?O p (s @ rest))" using that(1) by (rule gap_intro)
    have "drop (length s) (s @ rest) = rest" by simp
    then have b: "n \<in> set (rx_match r (prev_after p (s @ rest) (length s))
                              (drop (length s) (s @ rest)))"
      using that(2) by (simp only:)
    from seq_intro [OF a b] show ?thesis .
  qed
  obtain d3 ds3 where l3: "g3 = ds3 @ [d3]" using g3(1) by (cases g3 rule: rev_cases) auto
  then have w3: "is_word d3" using g3(2) by (simp add: digit_is_word)
  have last: "4 \<in> set (rx_match (Seq ?G WordB) q (g3 @ post))" for q
  proof -
    have a: "4 \<in> set (rx_match ?G q (g3 @ post))" using g3 by (rule digits_intro)
    have "prev_after q (g3 @ post) 4 = Some d3" using g3(1) l3 by (simp add: prev_after_def)
    moreover have "at_boundary (Some d3) post"
      using w3 assms(2) at_boundary_end_word [OF w3, of post] by (simp add: stands_alone_def)
    moreover have "drop 4 (g3 @ post) = post" using g3(1) by simp
    ultimately have b: "0 \<in> set (rx_match WordB (prev_after q (g3 @ post) 4)
                                  (drop 4 (g3 @ post)))"
      unfolding rx_match_WordB_iff by simp
    from seq_intro [OF a b] show ?thesis by (simp only: add_0_right)
  qed
  have a4: "length s2 + 4 \<in> set (rx_match (Seq ?O (Seq ?G WordB)) q (s2 @ g3 @ post))" for q
    using s2 last by (rule gap)
  have a3: "length g2 + (length s2 + 4)
              \<in> set (rx_match (Seq ?G (Seq ?O (Seq ?G WordB))) q (g2 @ s2 @ g3 @ post))" for q
    using g2 a4 by (rule step)
  have a2: "length s1 + (length g2 + (length s2 + 4))
              \<in> set (rx_match (Seq ?O (Seq ?G (Seq ?O (Seq ?G WordB)))) q
                        (s1 @ g2 @ s2 @ g3 @ post))" for q
    using s1 a3 by (rule gap)
  have a1: "length g1 + (length s1 + (length g2 + (length s2 + 4)))
              \<in> set (rx_match (Seq ?G (Seq ?O (Seq ?G (Seq ?O (Seq ?G WordB))))) q
                        (g1 @ s1 @ g2 @ s2 @ g3 @ post))" for q
    using g1 a2 by (rule step)
  obtain d1 ds1 where l1: "g1 = d1 # ds1" using g1(1) by (cases g1) auto
  then have w1: "is_word d1" using g1(2) by (simp add: digit_is_word)
  have "at_boundary (pos_prev None pre) (m @ post)"
    using at_boundary_start_word [of "m @ post" pre] w1 m l1 assms(2)
    by (simp add: pos_prev_def stands_alone_def)
  then have "rx_match AADHAAR_REGEX (pos_prev None pre) (m @ post) =
          rx_match (Seq ?G (Seq ?O (Seq ?G (Seq ?O (Seq ?G WordB))))) (pos_prev None pre)
            (m @ post)"
    unfolding AADHAAR_REGEX_def wordb_seq by (simp only: if_True)
  then have "length g1 + (length s1 + (length g2 + (length s2 + 4)))
               \<in> set (rx_match AADHAAR_REGEX (pos_prev None pre) (m @ post))"
    using a1 [of "pos_prev None pre"] unfolding m by (simp only: append_assoc)
  then show ?thesis by (auto simp del: rx_match.simps)
qed

lemma aadhaar_head_sound:
  assumes "rx_match AADHAAR_REGEX (pos_prev None pre) rest = n # ns"
  shows "aadhaar_match_form (take n rest) \<and> stands_alone pre (drop n rest)"
proof -
  have "n \<in> set (rx_match AADHAAR_REGEX (pos_prev None pre) rest)" using assms by simp
  from aadhaar_match_shape [OF this] obtain g1 s1 g2 s2 g3 where
    b: "take n rest = g1 @ s1 @ g2 @ s2 @ g3"
       "length g1 = 4" "list_all is_digit g1"
       "length g2 = 4" "list_all is_digit g2"
       "length g3 = 4" "list_all is_digit g3"
       "s1 = [] \<or> (\<exists>c. is_space c \<and> s1 = [c])"
       "s2 = [] \<or> (\<exists>c. is_space c \<and> s2 = [c])"
       "at_boundary (pos_prev None pre) rest"
       "drop n rest = [] \<or> \<not> is_word (hd (drop n rest))"
    by blast
  have form: "aadhaar_match_form (take n rest)"
    unfolding aadhaar_match_form_def using b(1-9) by blast
  obtain d ds where g1: "g1 = d # ds" using b(2) by (cases g1) auto
  then have w: "is_word d" using b(3) by (simp add: digit_is_word)
  have "rest = take n rest @ drop n rest" by simp
  then have "rest = d # (ds @ s1 @ g2 @ s2 @ g3 @ drop n rest)" using b(1) g1 by simp
  then have "rest \<noteq> []" and "is_word (hd rest)" using w by (metis list.distinct(1), metis list.sel(1))
  then have "pre = [] \<or> \<not> is_word (last pre)"
    using b(10) at_boundary_start_word [of rest pre] by (simp add: pos_prev_def)
  then have "stands_alone pre (drop n rest)" using b(11) by (simp add: stands_alone_def)
  with form show ?thesis by (rule conjI)
qed

lemma gap_unique:
  assumes "s = [] \<or> (\<exists>c. is_space c \<and> s = [c])" and "s' = [] \<or> (\<exists>c. is_space c \<and> s' = [c])"
    and "is_digit d" and "is_digit d'" and "s @ d # x = s' @ d' # x'"
  shows "s = s' \<and> d # x = d' # x'"
proof -
  from assms(1) consider "s = []" | c where "is_space c" "s = [c]" by blast
  then show ?thesis
  proof cases
    case 1
    from assms(2) consider "s' = []" | c' where "is_space c'" "s' = [c']" by blast
    then show ?thesis using 1 assms(3,5) space_not_digit by cases auto
  next
    case 2
    from assms(2) consider "s' = []" | c' where "is_space c'" "s' = [c']" by blast
    then show ?thesis using 2 assms(4,5) space_not_digit by cases auto
  qed
qed

lemma aadhaar_form_unique:
  assumes "aadhaar_match_form m" and "aadhaar_match_form m'" and "m @ post = m' @ post'"
  shows "m = m'"
proof -
  from assms(1) obtain g1 s1 g2 s2 g3 where m: "m = g1 @ s1 @ g2 @ s2 @ g3"
    and g: "length g1 = 4" "length g2 = 4" "list_all is_digit g2"
           "length g3 = 4" "list_all is_digit g3"
    and s: "s1 = [] \<or> (\<exists>c. is_space c \<and> s1 = [c])" "s2 = [] \<or> (\<exists>c. is_space c \<and> s2 = [c])"
    unfolding aadhaar_match_form_def by blast
  from assms(2) obtain h1 t1 h2 t2 h3 where m': "m' = h1 @ t1 @ h2 @ t2 @ h3"
    and h: "length h1 = 4" "length h2 = 4" "list_all is_digit h2"
           "length h3 = 4" "list_all is_digit h3"
    and t: "t1 = [] \<or> (\<exists>c. is_space c \<and> t1 = [c])" "t2 = [] \<or> (\<exists>c. is_space c \<and> t2 = [c])"
    unfolding aadhaar_match_form_def by blast
  obtain a2 as2 where g2: "g2 = a2 # as2" using g(2) by (cases g2) auto
  obtain b2 bs2 where h2: "h2 = b2 # bs2" using h(2) by (cases h2) auto
  obtain a3 as3 where g3: "g3 = a3 # as3" using g(4) by (cases g3) auto
  obtain b3 bs3 where h3: "h3 = b3 # bs3" using h(4) by (cases h3) auto
  have e0: "g1 @ (s1 @ g2 @ s2 @ g3 @ post) = h1 @ (t1 @ h2 @ t2 @ h3 @ post')"
    using assms(3) m m' by simp
  then have e1: "g1 = h1" and r1: "s1 @ g2 @ s2 @ g3 @ post = t1 @ h2 @ t2 @ h3 @ post'"
    using g(1) h(1) by simp_all
  have "s1 @ a2 # (as2 @ s2 @ g3 @ post) = t1 @ b2 # (bs2 @ t2 @ h3 @ post')"
    using r1 g2 h2 by simp
  from gap_unique [OF s(1) t(1) _ _ this]
  have e2: "s1 = t1" and r2: "g2 @ (s2 @ g3 @ post) = h2 @ (t2 @ h3 @ post')"
    using g(3) h(3) g2 h2 by simp_all
  from r2 have e3: "g2 = h2" and r3: "s2 @ g3 @ post = t2 @ h3 @ post'"
    using g(2) h(2) by simp_all
  have "s2 @ a3 # (as3 @ post) = t2 @ b3 # (bs3 @ post')" using r3 g3 h3 by simp
  from gap_unique [OF s(2) t(2) _ _ this]
  have e4: "s2 = t2" and r4: "g3 @ post = h3 @ post'"
    using g(5) h(5) g3 h3 by simp_all
  from r4 have e5: "g3 = h3" using g(4) h(4) by simp
  show ?thesis unfolding m m' e1 e2 e3 e4 e5 ..
qed

lemma aadhaar_search_None:
  "re_search AADHAAR_REGEX s = None \<longleftrightarrow>
     \<not> (\<exists>pre m post. s = pre @ m @ post \<and> aadhaar_match_form m \<and> stands_alone pre post)"
proof (rule search_characterised(1)
         [where occ = "\<lambda>pre m post. aadhaar_match_form m \<and> stands_alone pre post"])
  fix pre rest n ns assume "rx_match AADHAAR_REGEX (pos_prev None pre) rest = n # ns"
  then show "aadhaar_match_form (take n rest) \<and> stands_alone pre (drop n rest)"
    by (rule aadhaar_head_sound)
next
  fix pre m post assume "aadhaar_match_form m \<and> stands_alone pre post"
  then show "rx_match AADHAAR_REGEX (pos_prev None pre) (m @ post) \<noteq> []"
    using aadhaar_head_complete by blast
next
  fix pre m post m' post'
  assume "aadhaar_match_form m \<and> stands_alone pre post"
    "aadhaar_match_form m' \<and> stands_alone pre post'" "m @ post = m' @ post'"
  then show "m = m'" using aadhaar_form_unique by blast
qed

lemma aadhaar_search_Some:
  "re_search AADHAAR_REGEX s = Some m \<longleftrightarrow>
     (\<exists>pre post. s = pre @ m @ post \<and> (aadhaar_match_form m \<and> stands_alone pre post) \<and>
        (\<forall>pre' m' post'. s = pre' @ m' @ post' \<and>
             (aadhaar_match_form m' \<and> stands_alone pre' post')
           \<longrightarrow> length pre \<le> length pre'))"
proof (rule search_characterised(2)
         [where occ = "\<lambda>pre m post. aadhaar_match_form m \<and> stands_alone pre post"])
  fix pre rest n ns assume "rx_match AADHAAR_REGEX (pos_prev None pre) rest = n # ns"
  then show "aadhaar_match_form (take n rest) \<and> stands_alone pre (drop n rest)"
    by (rule aadhaar_head_sound)
next
  fix pre m post assume "aadhaar_match_form m \<and> stands_alone pre post"
  then show "rx_match AADHAAR_REGEX (pos_prev None pre) (m @ post) \<noteq> []"
    using aadhaar_head_complete by blast
next
  fix pre m post m' post'
  assume "aadhaar_match_form m \<and> stands_alone pre post"
    "aadhaar_match_form m' \<and> stands_alone pre post'" "m @ post = m' @ post'"
  then show "m = m'" using aadhaar_form_unique by blast
qed





section \<open>Claims\<close>

text \<open>
  C1. Bank-account selection. The claim ends with: for text containing a 12-digit Aadhaar
  number and a separate 11-digit numeric string, the bank account is the 11-digit string.
  The candidates are all standalone runs of 9 to 18 digits, whatever they are, and the
  first one not skipped wins: in "Phone 9876543210 Aadhaar 123456789012 Account
  12345678901" the candidates are the phone number, the Aadhaar and the 11-digit string,
  in this order, and the bank account is the phone number.
\<close>

theorem bank_account_other_run_counterexample:
  "extract_fields_rule_based sample_three_numbers_text ''a.pdf'' =
     Inr \<lparr> name = None, email = None, phone = Some ''9876543210'', pan = None,
           aadhaar = Some ''123456789012'', address = None,
           bank_account = Some ''9876543210'', ifsc = None, emergency_contact_name = None,
           emergency_contact_phone = None, source_file_name = ''a.pdf'' \<rparr> \<and>
   standalone_digit_runs (normalize_text sample_three_numbers_text) =
     [''9876543210'', ''123456789012'', ''12345678901'']"
  by code_simp

text \<open>
  C1 as amended. The candidates are the standalone runs of 9 to 18 digits of the
  normalized text, in order of appearance: \<open>standalone_digit_runs\<close> cuts the text into its
  maximal runs of word characters and keeps those made of 9 to 18 digits, which is what
  \<open>ACCOUNT_REGEX.finditer\<close> yields (lemma \<open>finditer_account\<close>). A candidate is skipped if
  and only if it equals the digits of the Aadhaar match (the match with every character
  that is not a digit removed) and has length 12; the result is the first candidate not
  skipped, or null. In particular, when the only candidates are the twelve digits of the
  Aadhaar and an 11-digit string, the result is the 11-digit string.
\<close>

theorem bank_account_selection:
  assumes "extract_fields_rule_based text f = Inr r"
  shows "bank_account r =
           find (\<lambda>d. \<not> (d = (case aadhaar r of None \<Rightarrow> [] | Some a \<Rightarrow> filter is_digit a) \<and>
                         length d = 12))
             (standalone_digit_runs (normalize_text text)) \<and>
         (\<forall>a e. aadhaar r = Some a \<and> length (filter is_digit a) = 12 \<and> length e = 11 \<and>
                e \<in> set (standalone_digit_runs (normalize_text text)) \<and>
                set (standalone_digit_runs (normalize_text text)) \<subseteq> {e, filter is_digit a}
            \<longrightarrow> bank_account r = Some e)"
proof -
  let ?runs = "standalone_digit_runs (normalize_text text)"
  let ?ad = "case aadhaar r of None \<Rightarrow> [] | Some a \<Rightarrow> filter is_digit a"
  have "bank_account r = bank_account_of (normalize_text text) (aadhaar r)"
    using assms by (rule field_projections)
  then have sel: "bank_account r = find (\<lambda>d. \<not> (d = ?ad \<and> length d = 12)) ?runs"
    by (simp only: bank_account_of_def account_loop_find finditer_account aadhaar_digits_of_case
                   digits_only_def)
  have "bank_account r = Some e"
    if h: "aadhaar r = Some a \<and> length (filter is_digit a) = 12 \<and> length e = 11 \<and>
           e \<in> set ?runs \<and> set ?runs \<subseteq> {e, filter is_digit a}" for a e
  proof -
    have "find (\<lambda>d. \<not> (d = filter is_digit a \<and> length d = 12)) ?runs = Some e"
      using h by (intro find_only_other) simp_all
    then show ?thesis using sel h by simp
  qed
  then show ?thesis using sel by blast
qed

text \<open>
  A text with a space-grouped Aadhaar number, the same twelve digits ungrouped, and a
  separate 11-digit number: the ungrouped run equals the digits of the grouped match and
  is skipped.
\<close>

theorem bank_account_selection_witness:
  "aadhaar (fields_of sample_grouped_then_plain_text ''a.pdf'') = Some ''1234 5678 9012'' \<and>
   standalone_digit_runs (normalize_text sample_grouped_then_plain_text) =
     [''123456789012'', ''12345678901''] \<and>
   bank_account (fields_of sample_grouped_then_plain_text ''a.pdf'') = Some ''12345678901''"
proof -
  have h1: "extract_fields_rule_based sample_grouped_then_plain_text ''a.pdf'' =
              Inr (fields_of sample_grouped_then_plain_text ''a.pdf'')"
    by (rule extract_fields_eq)
  have h2: "aadhaar (fields_of sample_grouped_then_plain_text ''a.pdf'') = Some ''1234 5678 9012''"
    by code_simp
  have h3: "standalone_digit_runs (normalize_text sample_grouped_then_plain_text) =
              [''123456789012'', ''12345678901'']"
    by code_simp
  have h4: "filter is_digit ''1234 5678 9012'' = ''123456789012''" by code_simp
  have h5: "aadhaar (fields_of sample_grouped_then_plain_text ''a.pdf'') = Some ''1234 5678 9012'' \<and>
            length (filter is_digit ''1234 5678 9012'') = 12 \<and> length ''12345678901'' = 11 \<and>
            ''12345678901'' \<in> set (standalone_digit_runs
                                    (normalize_text sample_grouped_then_plain_text)) \<and>
            set (standalone_digit_runs (normalize_text sample_grouped_then_plain_text))
              \<subseteq> {''12345678901'', filter is_digit ''1234 5678 9012''}"
    unfolding h3 h4 using h2 by simp
  have "bank_account (fields_of sample_grouped_then_plain_text ''a.pdf'') = Some ''12345678901''"
    using bank_account_selection [OF h1, THEN conjunct2, THEN spec, THEN spec, THEN mp, OF h5] .
  with h2 h3 show ?thesis by simp
qed

text \<open>
  C2. Disambiguation invariant: in the record the field extractor returns, a 12-digit
  \<open>bank_account\<close> is never the digit-only form of \<open>aadhaar\<close>.
\<close>

theorem bank_account_differs_from_aadhaar:
  assumes "extract_fields_rule_based text f = Inr r"
    and "aadhaar r = Some a" and "bank_account r = Some d" and "length d = 12"
  shows "d \<noteq> digits_only a"
proof
  assume eq: "d = digits_only a"
  have r: "r = fields_of text f" using assms(1) by (simp add: extract_fields_eq)
  have "bank_account r = bank_account_of (normalize_text text) (aadhaar r)"
    unfolding r fields_of_def by simp
  then have "account_loop (aadhaar_digits_of (Some a))
      (re_finditer ACCOUNT_REGEX (normalize_text text)) = Some d"
    using assms(2,3) by (simp add: bank_account_of_def)
  from account_loop_not_skipped [OF this] assms(4)
  have ne: "d \<noteq> aadhaar_digits_of (Some a)" by blast
  have "a \<noteq> []" using eq assms(4) by (auto simp: digits_only_def)
  then show False using ne eq by (simp add: aadhaar_digits_of_def)
qed

theorem bank_account_differs_from_aadhaar_witness:
  "aadhaar (fields_of ''123456789012 123456789013'' ''a.pdf'') = Some ''123456789012'' \<and>
   bank_account (fields_of ''123456789012 123456789013'' ''a.pdf'') = Some ''123456789013'' \<and>
   ''123456789013'' \<noteq> digits_only ''123456789012''"
proof -
  have h1: "extract_fields_rule_based ''123456789012 123456789013'' ''a.pdf'' =
              Inr (fields_of ''123456789012 123456789013'' ''a.pdf'')"
    by (rule extract_fields_eq)
  have h2: "aadhaar (fields_of ''123456789012 123456789013'' ''a.pdf'') = Some ''123456789012''"
    by code_simp
  have h3: "bank_account (fields_of ''123456789012 123456789013'' ''a.pdf'') =
              Some ''123456789013''"
    by code_simp
  have h4: "length ''123456789013'' = 12" by simp
  from bank_account_differs_from_aadhaar [OF h1 h2 h3 h4] h2 h3 show ?thesis by simp
qed

text \<open>
  C3. Batch resilience. The PDF library is a parameter \<open>pdf_open\<close>: for the bytes of one file
  it raises or gives, for each page, what \<open>extract_text()\<close> does there (raises, or returns
  \<open>None\<close> or a string). The loop over the uploaded files has no handler, so an exception of the
  library ends the batch: with a library that raises on the first of two files, no record
  is produced, although the second file is readable.
\<close>

theorem batch_stops_at_unreadable_counterexample:
  "extract_all corrupt_pdf_open [(''corrupt'', ''1.pdf''), (''readable'', ''2.pdf'')] = Inl PdfError \<and>
   extract_text_from_pdf_bytes corrupt_pdf_open ''corrupt'' = Inl PdfError \<and>
   extract_text_from_pdf_bytes corrupt_pdf_open ''readable'' = Inr ''Name: Jane Doe''"
  by code_simp

text \<open>
  C3 as amended. When the library reads every document of the batch, the loop produces one
  record per pair, in input order, each the field extractor's record of that document's
  text under the pair's file name; a document whose text is empty gets the record with
  all fields null except \<open>source_file_name\<close>. When the library raises on some document, the
  exception propagates and the batch produces no records.
\<close>

theorem batch_records:
  "((\<forall>d \<in> set files. \<exists>t. extract_text_from_pdf_bytes lib (fst d) = Inr t) \<longrightarrow>
      (\<exists>rows. extract_all lib files = Inr rows \<and> length rows = length files \<and>
         map source_file_name rows = map snd files \<and>
         (\<forall>k t. k < length files \<and> extract_text_from_pdf_bytes lib (fst (files ! k)) = Inr t
            \<longrightarrow> extract_fields_rule_based t (snd (files ! k)) = Inr (rows ! k)) \<and>
         (\<forall>k. k < length files \<and> extract_text_from_pdf_bytes lib (fst (files ! k)) = Inr []
            \<longrightarrow> rows ! k =
                 \<lparr> name = None, email = None, phone = None, pan = None, aadhaar = None,
                   address = None, bank_account = None, ifsc = None,
                   emergency_contact_name = None, emergency_contact_phone = None,
                   source_file_name = snd (files ! k) \<rparr>))) \<and>
   ((\<exists>d \<in> set files. \<exists>e. extract_text_from_pdf_bytes lib (fst d) = Inl e) \<longrightarrow>
      (\<exists>e. extract_all lib files = Inl e))"
proof (intro conjI impI)
  assume ok: "\<forall>d \<in> set files. \<exists>t. extract_text_from_pdf_bytes lib (fst d) = Inr t"
  let ?rows = "map (\<lambda>d. fields_of (projr (extract_text_from_pdf_bytes lib (fst d))) (snd d)) files"
  have a: "extract_all lib files = Inr ?rows" using ok by (rule extract_all_ok)
  have b: "length ?rows = length files" by simp
  have c: "map source_file_name ?rows = map snd files" by (simp add: fields_of_def)
  have d: "\<forall>k t. k < length files \<and> extract_text_from_pdf_bytes lib (fst (files ! k)) = Inr t
            \<longrightarrow> extract_fields_rule_based t (snd (files ! k)) = Inr (?rows ! k)"
    by (simp add: extract_fields_eq)
  have e: "\<forall>k. k < length files \<and> extract_text_from_pdf_bytes lib (fst (files ! k)) = Inr []
            \<longrightarrow> ?rows ! k =
                 \<lparr> name = None, email = None, phone = None, pan = None, aadhaar = None,
                   address = None, bank_account = None, ifsc = None,
                   emergency_contact_name = None, emergency_contact_phone = None,
                   source_file_name = snd (files ! k) \<rparr>"
  proof (intro allI impI)
    fix k
    assume k: "k < length files \<and> extract_text_from_pdf_bytes lib (fst (files ! k)) = Inr []"
    then have "?rows ! k = fields_of [] (snd (files ! k))" by simp
    moreover have "Inr (fields_of [] (snd (files ! k))) =
        (Inr \<lparr> name = None, email = None, phone = None, pan = None, aadhaar = None,
                   address = None, bank_account = None, ifsc = None,
                   emergency_contact_name = None, emergency_contact_phone = None,
                   source_file_name = snd (files ! k) \<rparr> :: error + ExtractedRecord)"
      using all_none_empty [of "snd (files ! k)"] extract_fields_eq [of "[]" "snd (files ! k)"]
      by simp
    ultimately show "?rows ! k =
                 \<lparr> name = None, email = None, phone = None, pan = None, aadhaar = None,
                   address = None, bank_account = None, ifsc = None,
                   emergency_contact_name = None, emergency_contact_phone = None,
                   source_file_name = snd (files ! k) \<rparr>"
      by simp
  qed
  from a b c d e
  show "\<exists>rows. extract_all lib files = Inr rows \<and> length rows = length files \<and>
         map source_file_name rows = map snd files \<and>
         (\<forall>k t. k < length files \<and> extract_text_from_pdf_bytes lib (fst (files ! k)) = Inr t
            \<longrightarrow> extract_fields_rule_based t (snd (files ! k)) = Inr (rows ! k)) \<and>
         (\<forall>k. k < length files \<and> extract_text_from_pdf_bytes lib (fst (files ! k)) = Inr []
            \<longrightarrow> rows ! k =
                 \<lparr> name = None, email = None, phone = None, pan = None, aadhaar = None,
                   address = None, bank_account = None, ifsc = None,
                   emergency_contact_name = None, emergency_contact_phone = None,
                   source_file_name = snd (files ! k) \<rparr>)"
    by (intro exI [of _ ?rows] conjI)
next
  assume "\<exists>d \<in> set files. \<exists>e. extract_text_from_pdf_bytes lib (fst d) = Inl e"
  then show "\<exists>e. extract_all lib files = Inl e" by (rule extract_all_raises)
qed

text \<open>
  A batch of three documents whose second has one page without text, and the batch of the
  counterexample.
\<close>

theorem batch_records_witness:
  "(\<exists>rows. extract_all textless_pdf_open
              [(''one'', ''1.pdf''), (''scan'', ''2.pdf''), (''three'', ''3.pdf'')] = Inr rows \<and>
       length rows = 3 \<and>
       map source_file_name rows = [''1.pdf'', ''2.pdf'', ''3.pdf''] \<and>
       rows ! 1 =
         \<lparr> name = None, email = None, phone = None, pan = None, aadhaar = None,
           address = None, bank_account = None, ifsc = None,
           emergency_contact_name = None, emergency_contact_phone = None,
           source_file_name = ''2.pdf'' \<rparr>) \<and>
   (\<exists>e. extract_all corrupt_pdf_open [(''corrupt'', ''1.pdf''), (''readable'', ''2.pdf'')] = Inl e)"
proof -
  let ?batch = "[(''one'', ''1.pdf''), (''scan'', ''2.pdf''), (''three'', ''3.pdf'')]"
  have t1: "extract_text_from_pdf_bytes textless_pdf_open ''one'' = Inr ''Name: Jane Doe''"
    by code_simp
  have t2: "extract_text_from_pdf_bytes textless_pdf_open ''scan'' = Inr []"
    by code_simp
  have t3: "extract_text_from_pdf_bytes textless_pdf_open ''three'' = Inr ''Name: Jane Doe''"
    by code_simp
  have ok: "\<forall>d \<in> set ?batch. \<exists>t. extract_text_from_pdf_bytes textless_pdf_open (fst d) = Inr t"
    using t1 t2 t3 by simp
  from batch_records [of ?batch textless_pdf_open, THEN conjunct1, THEN mp, OF ok]
  obtain rows where r: "extract_all textless_pdf_open ?batch = Inr rows \<and>
       length rows = length ?batch \<and>
       map source_file_name rows = map snd ?batch \<and>
       (\<forall>k t. k < length ?batch \<and>
              extract_text_from_pdf_bytes textless_pdf_open (fst (?batch ! k)) = Inr t
            \<longrightarrow> extract_fields_rule_based t (snd (?batch ! k)) = Inr (rows ! k)) \<and>
       (\<forall>k. k < length ?batch \<and>
              extract_text_from_pdf_bytes textless_pdf_open (fst (?batch ! k)) = Inr []
            \<longrightarrow> rows ! k =
                 \<lparr> name = None, email = None, phone = None, pan = None, aadhaar = None,
                   address = None, bank_account = None, ifsc = None,
                   emergency_contact_name = None, emergency_contact_phone = None,
                   source_file_name = snd (?batch ! k) \<rparr>)"
    by (rule exE)
  have k1: "1 < length ?batch \<and>
            extract_text_from_pdf_bytes textless_pdf_open (fst (?batch ! 1)) = Inr []"
    using t2 by simp
  have row1: "rows ! 1 =
         \<lparr> name = None, email = None, phone = None, pan = None, aadhaar = None,
           address = None, bank_account = None, ifsc = None,
           emergency_contact_name = None, emergency_contact_phone = None,
           source_file_name = ''2.pdf'' \<rparr>"
    using r [THEN conjunct2, THEN conjunct2, THEN conjunct2, THEN conjunct2, THEN spec, THEN mp,
             OF k1]
    by simp
  have a: "extract_all textless_pdf_open ?batch = Inr rows" using r by (rule conjunct1)
  have b: "length rows = 3" using r [THEN conjunct2, THEN conjunct1] by simp
  have c: "map source_file_name rows = [''1.pdf'', ''2.pdf'', ''3.pdf'']"
    using r [THEN conjunct2, THEN conjunct2, THEN conjunct1] by simp
  have first: "\<exists>rows. extract_all textless_pdf_open ?batch = Inr rows \<and>
       length rows = 3 \<and>
       map source_file_name rows = [''1.pdf'', ''2.pdf'', ''3.pdf''] \<and>
       rows ! 1 =
         \<lparr> name = None, email = None, phone = None, pan = None, aadhaar = None,
           address = None, bank_account = None, ifsc = None,
           emergency_contact_name = None, emergency_contact_phone = None,
           source_file_name = ''2.pdf'' \<rparr>"
    using a b c row1 by (intro exI [of _ rows] conjI)
  have u: "extract_text_from_pdf_bytes corrupt_pdf_open ''corrupt'' = Inl PdfError"
    by code_simp
  have bad: "\<exists>d \<in> set [(''corrupt'', ''1.pdf''), (''readable'', ''2.pdf'')].
               \<exists>e. extract_text_from_pdf_bytes corrupt_pdf_open (fst d) = Inl e"
    using u by simp
  have second: "\<exists>e. extract_all corrupt_pdf_open
                      [(''corrupt'', ''1.pdf''), (''readable'', ''2.pdf'')] = Inl e"
    using batch_records [of "[(''corrupt'', ''1.pdf''), (''readable'', ''2.pdf'')]"
                            corrupt_pdf_open, THEN conjunct2, THEN mp, OF bad] .
  from first second show ?thesis by (rule conjI)
qed

text \<open>
  C4. Labeled-name value extraction. The claim reads the value of a name-bearing line with
  a colon as the trimmed text after the first colon. The code splits the line at every
  colon and takes the second part, so the value ends at the second colon: on the lines
  "Name: John: Smith" and "Emergency Name: Ann: Lee" the record holds "John" and "Ann",
  where the text after the first colon is "John: Smith" and "Ann: Lee".
\<close>

theorem label_value_counterexample:
  "extract_fields_rule_based sample_colons_text ''a.pdf'' =
     Inr \<lparr> name = Some ''John'', email = None, phone = None, pan = None, aadhaar = None,
           address = None, bank_account = None, ifsc = None,
           emergency_contact_name = Some ''Ann'', emergency_contact_phone = None,
           source_file_name = ''a.pdf'' \<rparr> \<and>
   lines_of (normalize_text sample_colons_text) =
     [''Emergency Name: Ann: Lee'', ''Name: John: Smith''] \<and>
   strip (after_colon ''Name: John: Smith'') = ''John: Smith'' \<and>
   strip (after_colon ''Emergency Name: Ann: Lee'') = ''Ann: Lee''"
  by code_simp

text \<open>
  C4 as amended: for the candidate-name line and for the emergency-name line of the
  window, the value is the trimmed text between the first colon and the second colon (or
  the end of the line when there is no second colon) if the line contains a colon, and the
  entire trimmed line otherwise.
\<close>

theorem label_value_between_colons:
  assumes "extract_fields_rule_based text f = Inr r"
  shows "name r =
           map_option (\<lambda>ln. if CHR '':'' \<in> set ln then strip (upto_colon (after_colon ln))
                             else strip ln)
             (find (\<lambda>ln. contains ''name'' (lower ln) \<and> \<not> contains ''father'' (lower ln)
                         \<and> \<not> contains ''emergency'' (lower ln))
                (lines_of (normalize_text text))) \<and>
         (\<forall>i. i < length (lines_of (normalize_text text)) \<and>
              contains ''emergency'' (lower (lines_of (normalize_text text) ! i)) \<and>
              (\<forall>j<i. \<not> contains ''emergency'' (lower (lines_of (normalize_text text) ! j)))
           \<longrightarrow> emergency_contact_name r =
                 map_option (\<lambda>ln. if CHR '':'' \<in> set ln then strip (upto_colon (after_colon ln))
                                   else strip ln)
                   (find (\<lambda>ln. contains ''name'' (lower ln))
                      (take 5 (drop i (lines_of (normalize_text text))))))"
proof -
  let ?lines = "lines_of (normalize_text text)"
  have lt: "label_text = (\<lambda>ln. if CHR '':'' \<in> set ln then strip (upto_colon (after_colon ln))
                               else strip ln)"
    by (rule ext) (simp add: label_text_def)
  have a: "emergency_contact_name r = fst (emergency_fields ?lines)"
    and b: "name r = name_field ?lines"
    using assms by (rule field_projections)+
  show ?thesis
  proof (intro conjI allI impI)
    show "name r =
           map_option (\<lambda>ln. if CHR '':'' \<in> set ln then strip (upto_colon (after_colon ln))
                             else strip ln)
             (find (\<lambda>ln. contains ''name'' (lower ln) \<and> \<not> contains ''father'' (lower ln)
                         \<and> \<not> contains ''emergency'' (lower ln)) ?lines)"
      unfolding b name_field_def lt by (rule refl)
  next
    fix i
    assume "i < length ?lines \<and> contains ''emergency'' (lower (?lines ! i)) \<and>
            (\<forall>j<i. \<not> contains ''emergency'' (lower (?lines ! j)))"
    then have s: "first_index (\<lambda>ln. contains ''emergency'' (lower ln)) ?lines = Some i"
      by (simp add: first_index_Some)
    show "emergency_contact_name r =
            map_option (\<lambda>ln. if CHR '':'' \<in> set ln then strip (upto_colon (after_colon ln))
                              else strip ln)
              (find (\<lambda>ln. contains ''name'' (lower ln)) (take 5 (drop i ?lines)))"
      unfolding a emergency_fields_def s lt by simp
  qed
qed

theorem label_value_between_colons_witness:
  "name (fields_of sample_colons_text ''a.pdf'') = Some ''John'' \<and>
   emergency_contact_name (fields_of sample_colons_text ''a.pdf'') = Some ''Ann''"
proof -
  have h1: "extract_fields_rule_based sample_colons_text ''a.pdf'' =
              Inr (fields_of sample_colons_text ''a.pdf'')"
    by (rule extract_fields_eq)
  have h2: "0 < length (lines_of (normalize_text sample_colons_text)) \<and>
            contains ''emergency'' (lower (lines_of (normalize_text sample_colons_text) ! 0)) \<and>
            (\<forall>j<0. \<not> contains ''emergency''
                      (lower (lines_of (normalize_text sample_colons_text) ! j)))"
  proof (intro conjI)
    show "0 < length (lines_of (normalize_text sample_colons_text))" by code_simp
    show "contains ''emergency'' (lower (lines_of (normalize_text sample_colons_text) ! 0))"
      by code_simp
    show "\<forall>j<0. \<not> contains ''emergency''
                   (lower (lines_of (normalize_text sample_colons_text) ! j))"
      by simp
  qed
  have h3: "map_option (\<lambda>ln. if CHR '':'' \<in> set ln then strip (upto_colon (after_colon ln))
                              else strip ln)
             (find (\<lambda>ln. contains ''name'' (lower ln) \<and> \<not> contains ''father'' (lower ln)
                         \<and> \<not> contains ''emergency'' (lower ln))
                (lines_of (normalize_text sample_colons_text))) = Some ''John''"
    by code_simp
  have h4: "map_option (\<lambda>ln. if CHR '':'' \<in> set ln then strip (upto_colon (after_colon ln))
                              else strip ln)
              (find (\<lambda>ln. contains ''name'' (lower ln))
                 (take 5 (drop 0 (lines_of (normalize_text sample_colons_text))))) = Some ''Ann''"
    by code_simp
  have "name (fields_of sample_colons_text ''a.pdf'') = Some ''John''"
    using label_value_between_colons [OF h1, THEN conjunct1] h3 by simp
  moreover have "emergency_contact_name (fields_of sample_colons_text ''a.pdf'') = Some ''Ann''"
    using label_value_between_colons [OF h1, THEN conjunct2, THEN spec, THEN mp, OF h2] h4
    by simp
  ultimately show ?thesis by simp
qed

text \<open>
  C5. Phone pattern and normalization. The claim's pattern has an optional prefix "+91" or
  "91". The code's pattern has the prefix "+91" only (then, optionally, one hyphen or
  whitespace character), so on "919876543210" the match starts at the first digit and the
  phone is "9198765432"; under the claim's pattern (\<open>SPEC_PHONE_REGEX\<close>) the match is the
  whole string and the phone would be "9876543210".
\<close>

theorem phone_prefix_counterexample:
  "extract_fields_rule_based ''919876543210'' ''a.pdf'' =
     Inr \<lparr> name = None, email = None, phone = Some ''9198765432'', pan = None,
           aadhaar = Some ''919876543210'', address = None, bank_account = None,
           ifsc = None, emergency_contact_name = None, emergency_contact_phone = None,
           source_file_name = ''a.pdf'' \<rparr> \<and>
   re_search SPEC_PHONE_REGEX (normalize_text ''919876543210'') = Some ''919876543210'' \<and>
   last10 (digits_only ''919876543210'') = ''9876543210''"
  by code_simp

text \<open>
  C5 as amended. A phone match (\<open>phone_match_form\<close>) is an optional prefix "+91", itself
  optionally followed by one hyphen or one whitespace character, then ten digits of which
  the first is 6 to 9. The phone field is null exactly when the normalized text has no
  occurrence of a phone match; otherwise it is taken from the leftmost occurrence, the
  match reduced to its digits and the last ten kept. For every phone match these are its
  last ten characters: the ten digits of the number, the prefix dropped. "+91-9876543210"
  is matched as a whole and yields "9876543210".
\<close>

theorem phone_extraction:
  assumes "extract_fields_rule_based text f = Inr r"
  shows "(phone r = None \<longleftrightarrow>
            \<not> (\<exists>pre m post. normalize_text text = pre @ m @ post \<and> phone_match_form m)) \<and>
         (\<forall>ten. phone r = Some ten \<longleftrightarrow>
            (\<exists>pre m post. normalize_text text = pre @ m @ post \<and> phone_match_form m \<and>
               (\<forall>pre' m' post'. normalize_text text = pre' @ m' @ post' \<and> phone_match_form m'
                  \<longrightarrow> length pre \<le> length pre') \<and>
               ten = drop (length (filter is_digit m) - 10) (filter is_digit m))) \<and>
         (\<forall>m. phone_match_form m \<longrightarrow>
            drop (length (filter is_digit m) - 10) (filter is_digit m) = drop (length m - 10) m \<and>
            length (drop (length m - 10) m) = 10 \<and>
            list_all is_digit (drop (length m - 10) m) \<and>
            hd (drop (length m - 10) m) \<in> set ''6789'') \<and>
         phone r = map_option (\<lambda>m. drop (length (filter is_digit m) - 10) (filter is_digit m))
                     (re_search PHONE_REGEX (normalize_text text))"
proof -
  let ?norm = "normalize_text text"
  let ?N = "\<lambda>m. drop (length (filter is_digit m) - 10) (filter is_digit m)"
  have p: "phone r = map_option ?N (re_search PHONE_REGEX ?norm)"
    using field_projections(7) [OF assms]
    by (simp add: phone_of_map last10_def digits_only_def)
  have a: "phone r = None \<longleftrightarrow>
            \<not> (\<exists>pre m post. ?norm = pre @ m @ post \<and> phone_match_form m)"
    unfolding p using phone_search_None [of ?norm] by simp
  have b: "\<forall>ten. phone r = Some ten \<longleftrightarrow>
            (\<exists>pre m post. ?norm = pre @ m @ post \<and> phone_match_form m \<and>
               (\<forall>pre' m' post'. ?norm = pre' @ m' @ post' \<and> phone_match_form m'
                  \<longrightarrow> length pre \<le> length pre') \<and>
               ten = ?N m)"
  proof
    fix ten
    have "phone r = Some ten \<longleftrightarrow> (\<exists>m. re_search PHONE_REGEX ?norm = Some m \<and> ten = ?N m)"
      unfolding p by auto
    also have "\<dots> \<longleftrightarrow> (\<exists>m. (\<exists>pre post. ?norm = pre @ m @ post \<and> phone_match_form m \<and>
               (\<forall>pre' m' post'. ?norm = pre' @ m' @ post' \<and> phone_match_form m'
                  \<longrightarrow> length pre \<le> length pre')) \<and> ten = ?N m)"
      by (simp only: phone_search_Some)
    also have "\<dots> \<longleftrightarrow> (\<exists>pre m post. ?norm = pre @ m @ post \<and> phone_match_form m \<and>
               (\<forall>pre' m' post'. ?norm = pre' @ m' @ post' \<and> phone_match_form m'
                  \<longrightarrow> length pre \<le> length pre') \<and>
               ten = ?N m)"
      by blast
    finally show "phone r = Some ten \<longleftrightarrow>
            (\<exists>pre m post. ?norm = pre @ m @ post \<and> phone_match_form m \<and>
               (\<forall>pre' m' post'. ?norm = pre' @ m' @ post' \<and> phone_match_form m'
                  \<longrightarrow> length pre \<le> length pre') \<and>
               ten = ?N m)" .
  qed
  have c: "\<forall>m. phone_match_form m \<longrightarrow>
            ?N m = drop (length m - 10) m \<and>
            length (drop (length m - 10) m) = 10 \<and>
            list_all is_digit (drop (length m - 10) m) \<and>
            hd (drop (length m - 10) m) \<in> set ''6789''"
    using phone_form_normalized by blast
  from a b c p show ?thesis by (intro conjI)
qed

text \<open>
  The example "+91-9876543210", whose match includes the prefix, and a text without a
  phone number.
\<close>

theorem phone_extraction_witness:
  "phone (fields_of ''+91-9876543210'' ''a.pdf'') = Some ''9876543210'' \<and>
   re_search PHONE_REGEX (normalize_text ''+91-9876543210'') = Some ''+91-9876543210'' \<and>
   (\<exists>pre m post. normalize_text ''+91-9876543210'' = pre @ m @ post \<and> phone_match_form m \<and>
      (\<forall>pre' m' post'. normalize_text ''+91-9876543210'' = pre' @ m' @ post' \<and>
           phone_match_form m' \<longrightarrow> length pre \<le> length pre') \<and>
      ''9876543210'' = drop (length (filter is_digit m) - 10) (filter is_digit m)) \<and>
   phone (fields_of ''Name: Jane Doe'' ''b.pdf'') = None \<and>
   \<not> (\<exists>pre m post. normalize_text ''Name: Jane Doe'' = pre @ m @ post \<and> phone_match_form m)"
proof -
  have h1: "extract_fields_rule_based ''+91-9876543210'' ''a.pdf'' =
              Inr (fields_of ''+91-9876543210'' ''a.pdf'')"
    by (rule extract_fields_eq)
  have h2: "re_search PHONE_REGEX (normalize_text ''+91-9876543210'') = Some ''+91-9876543210''"
    by code_simp
  have h3: "map_option (\<lambda>m. drop (length (filter is_digit m) - 10) (filter is_digit m))
              (Some ''+91-9876543210'') = Some ''9876543210''"
    by code_simp
  note th = phone_extraction [OF h1]
  have v: "phone (fields_of ''+91-9876543210'' ''a.pdf'') = Some ''9876543210''"
    using th [THEN conjunct2, THEN conjunct2, THEN conjunct2] unfolding h2 h3 .
  note o = th [THEN conjunct2, THEN conjunct1, THEN spec, THEN iffD1, OF v]
  have g1: "extract_fields_rule_based ''Name: Jane Doe'' ''b.pdf'' =
              Inr (fields_of ''Name: Jane Doe'' ''b.pdf'')"
    by (rule extract_fields_eq)
  have g2: "phone (fields_of ''Name: Jane Doe'' ''b.pdf'') = None" by code_simp
  note n = phone_extraction [OF g1, THEN conjunct1, THEN iffD1, OF g2]
  from v h2 o g2 n show ?thesis by (intro conjI)
qed

text \<open>
  C6. Address extraction. With \<open>lines\<close> the trimmed non-empty lines of the normalized text:
  if no line contains "address" in its lowercase form the address is null; otherwise, at
  the first such line, the fragments are the trimmed text after the line's first colon
  (when the line has a colon and that text is not empty) followed by the subsequent lines
  up to, and not including, the first one whose lowercase form contains one of the seven
  section keywords; the address is the fragments joined with ", ", or null when there
  are none.
\<close>

theorem address_extraction:
  assumes "extract_fields_rule_based text f = Inr r"
  shows "((\<forall>ln \<in> set (lines_of (normalize_text text)). \<not> contains ''address'' (lower ln))
           \<longrightarrow> address r = None) \<and>
         (\<forall>i. i < length (lines_of (normalize_text text)) \<and>
              contains ''address'' (lower (lines_of (normalize_text text) ! i)) \<and>
              (\<forall>j<i. \<not> contains ''address'' (lower (lines_of (normalize_text text) ! j)))
           \<longrightarrow> address r =
                 (let first_line = lines_of (normalize_text text) ! i;
                      frags =
                        (if CHR '':'' \<in> set first_line \<and> strip (after_colon first_line) \<noteq> []
                         then [strip (after_colon first_line)] else []) @
                        takeWhile (\<lambda>ln. \<not> list_ex (\<lambda>key. contains key (lower ln)) section_keys)
                          (drop (Suc i) (lines_of (normalize_text text)))
                  in if frags = [] then None else Some (join '', '' frags)))"
proof -
  let ?lines = "lines_of (normalize_text text)"
  have a: "address r = address_field ?lines" using assms by (rule field_projections)
  have tr: "\<forall>ln \<in> set ?lines. strip ln = ln" using lines_of_trimmed by blast
  show ?thesis
  proof (intro conjI allI impI)
    assume "\<forall>ln \<in> set ?lines. \<not> contains ''address'' (lower ln)"
    then have "first_index (\<lambda>ln. contains ''address'' (lower ln)) ?lines = None"
      by (simp add: first_index_None)
    then show "address r = None" by (simp add: a address_field_def)
  next
    fix i
    assume "i < length ?lines \<and> contains ''address'' (lower (?lines ! i)) \<and>
            (\<forall>j<i. \<not> contains ''address'' (lower (?lines ! j)))"
    then have "first_index (\<lambda>ln. contains ''address'' (lower ln)) ?lines = Some i"
      by (simp add: first_index_Some)
    then show "address r =
                 (let first_line = ?lines ! i;
                      frags =
                        (if CHR '':'' \<in> set first_line \<and> strip (after_colon first_line) \<noteq> []
                         then [strip (after_colon first_line)] else []) @
                        takeWhile (\<lambda>ln. \<not> list_ex (\<lambda>key. contains key (lower ln)) section_keys)
                          (drop (Suc i) ?lines)
                  in if frags = [] then None else Some (join '', '' frags))"
      unfolding a address_field_def address_fragments_trimmed [OF tr] Let_def by simp
  qed
qed

text \<open>
  The example of C6, "Address: 12 MG Road / Bangalore / Bank Details", and a text with no
  address line.
\<close>

theorem address_extraction_witness:
  "address (fields_of sample_address_text ''a.pdf'') = Some ''12 MG Road, Bangalore'' \<and>
   address (fields_of ''Name: Jane Doe'' ''b.pdf'') = None"
proof -
  have h1: "extract_fields_rule_based sample_address_text ''a.pdf'' =
              Inr (fields_of sample_address_text ''a.pdf'')"
    by (rule extract_fields_eq)
  have h2: "0 < length (lines_of (normalize_text sample_address_text)) \<and>
            contains ''address'' (lower (lines_of (normalize_text sample_address_text) ! 0)) \<and>
            (\<forall>j<0. \<not> contains ''address'' (lower (lines_of (normalize_text sample_address_text) ! j)))"
  proof (intro conjI)
    show "0 < length (lines_of (normalize_text sample_address_text))" by code_simp
    show "contains ''address'' (lower (lines_of (normalize_text sample_address_text) ! 0))"
      by code_simp
    show "\<forall>j<0. \<not> contains ''address'' (lower (lines_of (normalize_text sample_address_text) ! j))"
      by simp
  qed
  have h3: "(let first_line = lines_of (normalize_text sample_address_text) ! 0;
                 frags =
                   (if CHR '':'' \<in> set first_line \<and> strip (after_colon first_line) \<noteq> []
                    then [strip (after_colon first_line)] else []) @
                   takeWhile (\<lambda>ln. \<not> list_ex (\<lambda>key. contains key (lower ln)) section_keys)
                     (drop (Suc 0) (lines_of (normalize_text sample_address_text)))
             in if frags = [] then None else Some (join '', '' frags)) =
            Some ''12 MG Road, Bangalore''"
    by code_simp
  have g1: "extract_fields_rule_based ''Name: Jane Doe'' ''b.pdf'' =
              Inr (fields_of ''Name: Jane Doe'' ''b.pdf'')"
    by (rule extract_fields_eq)
  have g2: "lines_of (normalize_text ''Name: Jane Doe'') = [''Name: Jane Doe'']" by code_simp
  have g3: "\<not> contains ''address'' (lower ''Name: Jane Doe'')" by code_simp
  have g4: "\<forall>ln \<in> set (lines_of (normalize_text ''Name: Jane Doe'')).
              \<not> contains ''address'' (lower ln)"
    unfolding g2 using g3 by simp
  have "address (fields_of sample_address_text ''a.pdf'') = Some ''12 MG Road, Bangalore''"
    using address_extraction [OF h1, THEN conjunct2, rule_format, OF h2] h3 by simp
  moreover have "address (fields_of ''Name: Jane Doe'' ''b.pdf'') = None"
    using address_extraction [OF g1, THEN conjunct1, THEN mp, OF g4] by simp
  ultimately show ?thesis by simp
qed



text \<open>
  C8. Aadhaar pattern. The claim allows 12 digits either contiguous or grouped 4-4-4 with
  single spaces (\<open>spec_aadhaar_form\<close>). The code's separators are \<open>\<^verbatim>\<open>\s?\<close>\<close>, each on its own:
  any one whitespace character, a line break included, or nothing. Three four-digit
  numbers on consecutive lines are matched as an Aadhaar, and so is "1234 56789012".
\<close>

theorem aadhaar_whitespace_counterexample:
  "extract_fields_rule_based sample_line_broken_text ''a.pdf'' =
     Inr \<lparr> name = None, email = None, phone = None, pan = None,
           aadhaar = Some (''1234'' @ [LF] @ ''5678'' @ [LF] @ ''9012''), address = None,
           bank_account = None, ifsc = None, emergency_contact_name = None,
           emergency_contact_phone = None, source_file_name = ''a.pdf'' \<rparr> \<and>
   \<not> spec_aadhaar_form (''1234'' @ [LF] @ ''5678'' @ [LF] @ ''9012'') \<and>
   extract_fields_rule_based ''1234 56789012'' ''b.pdf'' =
     Inr \<lparr> name = None, email = None, phone = None, pan = None,
           aadhaar = Some ''1234 56789012'', address = None,
           bank_account = None, ifsc = None, emergency_contact_name = None,
           emergency_contact_phone = None, source_file_name = ''b.pdf'' \<rparr> \<and>
   \<not> spec_aadhaar_form ''1234 56789012''"
  by code_simp

text \<open>
  C8 as amended. An Aadhaar match (\<open>aadhaar_match_form\<close>) is three groups of four digits
  where each of the two gaps between the groups is, independently, empty or one
  whitespace character. The aadhaar field is null exactly when the normalized text has no
  occurrence of an Aadhaar match standing alone (no word character before or after);
  otherwise it is the leftmost such occurrence, the matched piece of the normalized text,
  unchanged.
\<close>

theorem aadhaar_extraction:
  assumes "extract_fields_rule_based text f = Inr r"
  shows "(aadhaar r = None \<longleftrightarrow>
            \<not> (\<exists>pre m post. normalize_text text = pre @ m @ post \<and>
                  aadhaar_match_form m \<and> stands_alone pre post)) \<and>
         (\<forall>m. aadhaar r = Some m \<longleftrightarrow>
            (\<exists>pre post. normalize_text text = pre @ m @ post \<and>
               (aadhaar_match_form m \<and> stands_alone pre post) \<and>
               (\<forall>pre' m' post'. normalize_text text = pre' @ m' @ post' \<and>
                    (aadhaar_match_form m' \<and> stands_alone pre' post')
                  \<longrightarrow> length pre \<le> length pre'))) \<and>
         aadhaar r = re_search AADHAAR_REGEX (normalize_text text)"
proof -
  have a: "aadhaar r = re_search AADHAAR_REGEX (normalize_text text)"
    using assms by (rule field_projections)
  have n: "aadhaar r = None \<longleftrightarrow>
            \<not> (\<exists>pre m post. normalize_text text = pre @ m @ post \<and>
                  aadhaar_match_form m \<and> stands_alone pre post)"
    unfolding a by (rule aadhaar_search_None)
  have s: "\<forall>m. aadhaar r = Some m \<longleftrightarrow>
            (\<exists>pre post. normalize_text text = pre @ m @ post \<and>
               (aadhaar_match_form m \<and> stands_alone pre post) \<and>
               (\<forall>pre' m' post'. normalize_text text = pre' @ m' @ post' \<and>
                    (aadhaar_match_form m' \<and> stands_alone pre' post')
                  \<longrightarrow> length pre \<le> length pre'))"
    unfolding a by (rule allI, rule aadhaar_search_Some)
  from n s a show ?thesis by (intro conjI)
qed

text \<open>
  A text with two Aadhaar numbers, the first one grouped, and a text without one.
\<close>

theorem aadhaar_extraction_witness:
  "aadhaar (fields_of sample_two_aadhaar_text ''a.pdf'') = Some ''1234 5678 9012'' \<and>
   (\<exists>pre post. normalize_text sample_two_aadhaar_text = pre @ ''1234 5678 9012'' @ post \<and>
      (aadhaar_match_form ''1234 5678 9012'' \<and> stands_alone pre post) \<and>
      (\<forall>pre' m' post'. normalize_text sample_two_aadhaar_text = pre' @ m' @ post' \<and>
           (aadhaar_match_form m' \<and> stands_alone pre' post')
         \<longrightarrow> length pre \<le> length pre')) \<and>
   aadhaar (fields_of ''Name: Jane Doe'' ''b.pdf'') = None \<and>
   \<not> (\<exists>pre m post. normalize_text ''Name: Jane Doe'' = pre @ m @ post \<and>
         aadhaar_match_form m \<and> stands_alone pre post)"
proof -
  have h1: "extract_fields_rule_based sample_two_aadhaar_text ''a.pdf'' =
              Inr (fields_of sample_two_aadhaar_text ''a.pdf'')"
    by (rule extract_fields_eq)
  have h2: "re_search AADHAAR_REGEX (normalize_text sample_two_aadhaar_text) =
              Some ''1234 5678 9012''"
    by code_simp
  note th = aadhaar_extraction [OF h1]
  have v: "aadhaar (fields_of sample_two_aadhaar_text ''a.pdf'') = Some ''1234 5678 9012''"
    using th [THEN conjunct2, THEN conjunct2] unfolding h2 .
  note o = th [THEN conjunct2, THEN conjunct1, THEN spec, THEN iffD1, OF v]
  have g1: "extract_fields_rule_based ''Name: Jane Doe'' ''b.pdf'' =
              Inr (fields_of ''Name: Jane Doe'' ''b.pdf'')"
    by (rule extract_fields_eq)
  have g2: "aadhaar (fields_of ''Name: Jane Doe'' ''b.pdf'') = None" by code_simp
  note n = aadhaar_extraction [OF g1, THEN conjunct1, THEN iffD1, OF g2]
  from v o g2 n show ?thesis by (intro conjI)
qed



text \<open>
  C10. A space-grouped Aadhaar and the bank-account candidates. The claim says that when
  the matched Aadhaar value contains spacing, its digit form produces no generic-account
  match. It does when the same digits occur a second time ungrouped: in
  "1234 5678 9012 123456789012" the Aadhaar match is the grouped "1234 5678 9012", the
  only candidate is the ungrouped run, which equals the Aadhaar's digits, and the skip
  rule fires on it.
\<close>

theorem grouped_aadhaar_counterexample:
  "extract_fields_rule_based sample_grouped_text ''a.pdf'' =
     Inr \<lparr> name = None, email = None, phone = None, pan = None,
           aadhaar = Some ''1234 5678 9012'', address = None, bank_account = None,
           ifsc = None, emergency_contact_name = None, emergency_contact_phone = None,
           source_file_name = ''a.pdf'' \<rparr> \<and>
   digits_only ''1234 5678 9012'' = ''123456789012'' \<and>
   re_finditer ACCOUNT_REGEX (normalize_text sample_grouped_text) = [''123456789012'']"
  by code_simp

text \<open>
  C10 as amended. Every bank-account candidate is a run of 9 to 18 digits that stands
  alone in the normalized text (no word character before or after it); so the matched
  Aadhaar value is itself never a candidate when it contains a character that is not a
  digit, and the skip rule, which acts on candidates only, fires only on a standalone
  ungrouped 12-digit run of the text that equals the Aadhaar's digits.
\<close>

theorem account_candidates:
  assumes "extract_fields_rule_based text f = Inr r"
  shows "(\<forall>c \<in> set (re_finditer ACCOUNT_REGEX (normalize_text text)).
            list_all is_digit c \<and> 9 \<le> length c \<and> length c \<le> 18 \<and>
            (\<exists>pre post. normalize_text text = pre @ c @ post \<and>
                        (pre = [] \<or> \<not> is_word (last pre)) \<and>
                        (post = [] \<or> \<not> is_word (hd post)))) \<and>
         (\<forall>a. aadhaar r = Some a \<and> \<not> list_all is_digit a
            \<longrightarrow> a \<notin> set (re_finditer ACCOUNT_REGEX (normalize_text text))) \<and>
         bank_account r =
           find (\<lambda>d. \<not> (d = (case aadhaar r of None \<Rightarrow> [] | Some a \<Rightarrow> digits_only a) \<and>
                         length d = 12))
             (re_finditer ACCOUNT_REGEX (normalize_text text))"
proof -
  let ?norm = "normalize_text text"
  have a: "\<forall>c \<in> set (re_finditer ACCOUNT_REGEX ?norm).
            list_all is_digit c \<and> 9 \<le> length c \<and> length c \<le> 18 \<and>
            (\<exists>pre post. ?norm = pre @ c @ post \<and>
                        (pre = [] \<or> \<not> is_word (last pre)) \<and>
                        (post = [] \<or> \<not> is_word (hd post)))"
    unfolding finditer_account using standalone_run_props by blast
  have b: "\<forall>a. aadhaar r = Some a \<and> \<not> list_all is_digit a
            \<longrightarrow> a \<notin> set (re_finditer ACCOUNT_REGEX ?norm)"
    using a by blast
  have "bank_account r = bank_account_of ?norm (aadhaar r)"
    using assms by (rule field_projections)
  then have c: "bank_account r =
           find (\<lambda>d. \<not> (d = (case aadhaar r of None \<Rightarrow> [] | Some a \<Rightarrow> digits_only a) \<and>
                         length d = 12))
             (re_finditer ACCOUNT_REGEX ?norm)"
    by (simp only: bank_account_of_def account_loop_find aadhaar_digits_of_case)
  from a b c show ?thesis by (intro conjI)
qed

theorem account_candidates_witness:
  "''1234 5678 9012'' \<notin> set (re_finditer ACCOUNT_REGEX (normalize_text sample_grouped_text)) \<and>
   list_all is_digit ''123456789012'' \<and>
   (\<exists>pre post. normalize_text sample_grouped_text = pre @ ''123456789012'' @ post \<and>
               (pre = [] \<or> \<not> is_word (last pre)) \<and> (post = [] \<or> \<not> is_word (hd post)))"
proof -
  have h1: "extract_fields_rule_based sample_grouped_text ''a.pdf'' =
              Inr (fields_of sample_grouped_text ''a.pdf'')"
    by (rule extract_fields_eq)
  have h2: "aadhaar (fields_of sample_grouped_text ''a.pdf'') = Some ''1234 5678 9012'' \<and>
            \<not> list_all is_digit ''1234 5678 9012''"
    by code_simp
  have h3: "''123456789012'' \<in> set (re_finditer ACCOUNT_REGEX (normalize_text sample_grouped_text))"
    by code_simp
  note th = account_candidates [OF h1]
  have "''1234 5678 9012'' \<notin> set (re_finditer ACCOUNT_REGEX (normalize_text sample_grouped_text))"
    using th [THEN conjunct2, THEN conjunct1, THEN spec, THEN mp, OF h2] .
  moreover have "list_all is_digit ''123456789012'' \<and>
     (\<exists>pre post. normalize_text sample_grouped_text = pre @ ''123456789012'' @ post \<and>
               (pre = [] \<or> \<not> is_word (last pre)) \<and> (post = [] \<or> \<not> is_word (hd post)))"
    using th [THEN conjunct1, THEN bspec, OF h3] by blast
  ultimately show ?thesis by (rule conjI)
qed

end
